theory Spec2Isabelle
  imports Main
begin

section \<open>The resource store of internal/resourcestore/resourcestore.go\<close>

text \<open>
  The store is a Go struct guarded by one mutex. Every exported method takes the lock
  on entry and releases it on return, and the reaper takes it for the whole traversal
  of the registry, so each of them is one atomic transition of the program state. The
  program state holds the store struct, the \<^verbatim>\<open>Resource\<close> structs it points to
  (by address: the registry is a \<^verbatim>\<open>map[string]*Resource\<close>), the watcher
  channels (by identity), the local state of the reaper goroutine and the list of calls
  made so far on objects outside the store.
\<close>

subsection \<open>Addresses, channels, faults\<close>

type_synonym addr = nat

type_synonym chan = nat

text \<open>A Go channel of \<^verbatim>\<open>struct{}\<close>: its capacity, the number of buffered
  elements, and whether it has been closed.\<close>

record channel =
  chan_cap :: nat
  chan_len :: nat
  chan_closed :: bool

definition make_chan :: "nat \<Rightarrow> channel" where
  "make_chan n = \<lparr>chan_cap = n, chan_len = 0, chan_closed = False\<rparr>"

text \<open>
  What a transition can do instead of returning: \<open>Blocked\<close> is a channel operation
  that cannot proceed in this state (a send on a full or nil channel, a receive from an
  empty one); \<open>Panic\<close> is a Go run-time panic (nil dereference, close of a closed
  channel, send on a closed channel); \<open>Disabled\<close> is a step of the reaper goroutine
  that its control state does not allow.
\<close>

datatype fault = Blocked | Panic | Disabled

text \<open>Dereferencing: an address outside the store is the nil pointer.\<close>

definition deref :: "'a list \<Rightarrow> nat \<Rightarrow> 'a option" where
  "deref h a = (if a < length h then Some (h ! a) else None)"

subsection \<open>The data model\<close>

text \<open>
  \<^verbatim>\<open>type Resource struct\<close>. The \<open>resource\<close> field is an interface value
  (\<open>None\<close> is nil) of type \<^verbatim>\<open>IdentifiableCreatable\<close>; \<open>'r\<close> is the type of
  the objects behind it and their method \<^verbatim>\<open>ID()\<close> is a parameter \<open>ID\<close> of the
  functions that call it. The \<open>cleaner\<close> field is a \<^verbatim>\<open>*ResourceCleaner\<close>
  (\<open>None\<close> is nil), \<open>'c\<close> the type of the cleaners pointed to.
\<close>

record ('r, 'c) Resource =
  resource :: "'r option"
  cleaner :: "'c option"
  watchers :: "chan list"
  stale :: bool
  name :: string

text \<open>\<^verbatim>\<open>type ResourceStore struct\<close>; the embedded mutex is what makes the
  methods atomic. The timeout is a \<^verbatim>\<open>time.Duration\<close>, in nanoseconds.\<close>

record ResourceStore =
  resources :: "string \<rightharpoonup> addr"
  timeout :: int
  closeChan :: channel
  closed :: bool

text \<open>
  Calls on objects outside the store: \<^verbatim>\<open>SetCreated()\<close> on a resource, a
  completed send on a watcher channel, \<^verbatim>\<open>Cleanup()\<close> on the cleaner of the
  \<^verbatim>\<open>Resource\<close> struct at an address, and a line of the log.
\<close>

datatype ('r, 'c) event = SetCreated 'r | Sent chan | Cleanup addr 'c | LogInfo string

record ('r, 'c) world =
  rc :: ResourceStore
  heap :: "('r, 'c) Resource list"
  chans :: "channel list"
  resourcesToReap :: "addr list"
  reaperExited :: bool
  events :: "('r, 'c) event list"

text \<open>\<^verbatim>\<open>const sleepTimeBeforeCleanup = 1 * time.Minute\<close>\<close>

definition sleepTimeBeforeCleanup :: int where
  "sleepTimeBeforeCleanup = 1 * 60000000000"

text \<open>\<^verbatim>\<open>func (r *Resource) wasPut() bool\<close>, on a pointer that may be nil.\<close>

definition wasPut :: "('r, 'c) Resource option \<Rightarrow> bool" where
  "wasPut r = (r \<noteq> None \<and> resource (the r) \<noteq> None)"

text \<open>\<^verbatim>\<open>func NewWithTimeout(timeout time.Duration) *ResourceStore\<close>: the reaper
  goroutine it starts is at its \<^verbatim>\<open>select\<close>, with nothing to reap.\<close>

definition NewWithTimeout :: "int \<Rightarrow> ('r, 'c) world" where
  "NewWithTimeout t =
     \<lparr>rc = \<lparr>resources = Map.empty, timeout = t, closeChan = make_chan 1, closed = False\<rparr>,
      heap = [], chans = [], resourcesToReap = [], reaperExited = False, events = []\<rparr>"

definition New :: "('r, 'c) world" where
  "New = NewWithTimeout sleepTimeBeforeCleanup"

subsection \<open>Channel operations\<close>

text \<open>\<^verbatim>\<open>close(c)\<close>\<close>

definition close_chan :: "channel \<Rightarrow> fault + channel" where
  "close_chan c = (if chan_closed c then Inl Panic else Inr (c\<lparr>chan_closed := True\<rparr>))"

text \<open>\<^verbatim>\<open>w <- struct{}{}\<close>: completes when the buffer has room.\<close>

definition send :: "chan \<Rightarrow> ('r, 'c) world \<Rightarrow> fault + ('r, 'c) world" where
  "send ch w =
     (case deref (chans w) ch of
        None \<Rightarrow> Inl Blocked
      | Some c \<Rightarrow>
          if chan_closed c then Inl Panic
          else if chan_len c < chan_cap c
          then Inr (w\<lparr>chans := (chans w)[ch := c\<lparr>chan_len := chan_len c + 1\<rparr>],
                      events := events w @ [Sent ch]\<rparr>)
          else Inl Blocked)"

text \<open>\<^verbatim>\<open><-w\<close> by the waiter that holds the watcher: takes a buffered element.\<close>

definition receive :: "chan \<Rightarrow> ('r, 'c) world \<Rightarrow> fault + ('r, 'c) world" where
  "receive ch w =
     (case deref (chans w) ch of
        None \<Rightarrow> Inl Blocked
      | Some c \<Rightarrow>
          if 0 < chan_len c
          then Inr (w\<lparr>chans := (chans w)[ch := c\<lparr>chan_len := chan_len c - 1\<rparr>]\<rparr>)
          else Inl Blocked)"

text \<open>\<^verbatim>\<open>for _, w := range r.watchers { w <- struct{}{} }\<close>\<close>

fun notify :: "chan list \<Rightarrow> ('r, 'c) world \<Rightarrow> fault + ('r, 'c) world" where
  "notify [] w = Inr w"
| "notify (ch # chs) w = (case send ch w of Inl f \<Rightarrow> Inl f | Inr w' \<Rightarrow> notify chs w')"

subsection \<open>Close, Get, Put, WatcherForResource\<close>

definition Close :: "('r, 'c) world \<Rightarrow> fault + ('r, 'c) world" where
  "Close w =
     (if closed (rc w) then Inr w
      else case close_chan (closeChan (rc w)) of
             Inl f \<Rightarrow> Inl f
           | Inr c \<Rightarrow> Inr (w\<lparr>rc := (rc w)\<lparr>closeChan := c, closed := True\<rparr>\<rparr>))"

definition Get :: "('r \<Rightarrow> string) \<Rightarrow> string \<Rightarrow> ('r, 'c) world \<Rightarrow> string \<times> ('r, 'c) world" where
  "Get ID n w =
     (case resources (rc w) n of
        None \<Rightarrow> ('''', w)
      | Some r \<Rightarrow>
          if \<not> wasPut (deref (heap w) r) then ('''', w)
          else (ID (the (resource (heap w ! r))),
                w\<lparr>rc := (rc w)\<lparr>resources := (resources (rc w))(n := None)\<rparr>,
                  events := events w @ [SetCreated (the (resource (heap w ! r)))]\<rparr>))"

text \<open>The message of the error that \<^verbatim>\<open>Put\<close> returns for a duplicate name.\<close>

definition duplicate_error :: "string \<Rightarrow> string" where
  "duplicate_error n = ''failed to add entry '' @ n @ '' to ResourceStore; entry already exists''"

text \<open>The first lines of \<^verbatim>\<open>Put\<close>: look the name up and, if it is absent, store a
  pointer to a new zero \<^verbatim>\<open>Resource\<close>. Returns the pointer, \<open>ok\<close> and the state.\<close>

definition lookup_or_create ::
  "string \<Rightarrow> ('r, 'c) world \<Rightarrow> addr \<times> bool \<times> ('r, 'c) world" where
  "lookup_or_create n w =
     (case resources (rc w) n of
        Some r \<Rightarrow> (r, True, w)
      | None \<Rightarrow>
          (length (heap w), False,
           w\<lparr>heap := heap w @ [\<lparr>resource = None, cleaner = None, watchers = [],
                                 stale = False, name = ''''\<rparr>],
             rc := (rc w)\<lparr>resources := (resources (rc w))(n \<mapsto> length (heap w))\<rparr>\<rparr>))"

text \<open>\<^verbatim>\<open>Put\<close> returns a Go \<^verbatim>\<open>error\<close>: \<open>None\<close> is nil, \<open>Some msg\<close> an error
  with that message.\<close>

definition Put ::
  "string \<Rightarrow> 'r option \<Rightarrow> 'c option \<Rightarrow> ('r, 'c) world \<Rightarrow> fault + (string option \<times> ('r, 'c) world)" where
  "Put n res cl w =
     (case lookup_or_create n w of
        (r, ok, w1) \<Rightarrow>
          if ok \<and> wasPut (deref (heap w1) r) then Inr (Some (duplicate_error n), w1)
          else (case deref (heap w1) r of
                  None \<Rightarrow> Inl Panic
                | Some e \<Rightarrow>
                    (case notify (watchers e)
                            (w1\<lparr>heap := (heap w1)[r := e\<lparr>resource := res, cleaner := cl,
                                                         name := n\<rparr>]\<rparr>) of
                       Inl f \<Rightarrow> Inl f
                     | Inr w2 \<Rightarrow> Inr (None, w2))))"

definition WatcherForResource ::
  "string \<Rightarrow> ('r, 'c) world \<Rightarrow> fault + (chan \<times> ('r, 'c) world)" where
  "WatcherForResource n w =
     (let watcher = length (chans w);
          w1 = w\<lparr>chans := chans w @ [make_chan 1]\<rparr>
      in case resources (rc w1) n of
           None \<Rightarrow>
             Inr (watcher,
                  w1\<lparr>heap := heap w1 @ [\<lparr>resource = None, cleaner = None,
                                          watchers = [watcher], stale = False, name = n\<rparr>],
                     rc := (rc w1)\<lparr>resources := (resources (rc w1))(n \<mapsto> length (heap w1))\<rparr>\<rparr>)
         | Some r \<Rightarrow>
             (case deref (heap w1) r of
                None \<Rightarrow> Inl Panic
              | Some e \<Rightarrow>
                  Inr (watcher,
                       w1\<lparr>heap := (heap w1)[r := e\<lparr>watchers := watchers e @ [watcher]\<rparr>]\<rparr>)))"

subsection \<open>The reaper: cleanupStaleResources\<close>

text \<open>
  One iteration of the \<^verbatim>\<open>for name, r := range rc.resources\<close> loop, for the key
  \<open>n\<close>. A key the map does not hold is never produced by \<^verbatim>\<open>range\<close>.
\<close>

definition reap_visit :: "string \<Rightarrow> ('r, 'c) world \<Rightarrow> ('r, 'c) world" where
  "reap_visit n w =
     (case resources (rc w) n of
        None \<Rightarrow> w
      | Some r \<Rightarrow>
          if \<not> wasPut (deref (heap w) r) then w
          else (let w1 = (if stale (heap w ! r)
                          then w\<lparr>resourcesToReap := resourcesToReap w @ [r],
                                 rc := (rc w)\<lparr>resources := (resources (rc w))(n := None)\<rparr>\<rparr>
                          else w)
                in w1\<lparr>heap := (heap w1)[r := (heap w1 ! r)\<lparr>stale := True\<rparr>]\<rparr>))"

fun reap_range :: "string list \<Rightarrow> ('r, 'c) world \<Rightarrow> ('r, 'c) world" where
  "reap_range [] w = w"
| "reap_range (n # ns) w = reap_range ns (reap_visit n w)"

text \<open>
  Go's \<^verbatim>\<open>range\<close> over a map produces the keys in an order of its choice, each key
  once; the loop deletes only the key it is at, so every key of the map at the start is
  produced. \<open>range_order ks w\<close>: \<open>ks\<close> is such an order for the registry of \<open>w\<close>.
\<close>

definition range_order :: "string list \<Rightarrow> ('r, 'c) world \<Rightarrow> bool" where
  "range_order ks w = (distinct ks \<and> set ks = dom (resources (rc w)))"

text \<open>The part of a cycle that runs under the lock: from
  \<^verbatim>\<open>resourcesToReap := []*Resource{}\<close> to \<^verbatim>\<open>rc.Unlock()\<close>.\<close>

definition reaper_locked :: "string list \<Rightarrow> ('r, 'c) world \<Rightarrow> ('r, 'c) world" where
  "reaper_locked ks w = reap_range ks (w\<lparr>resourcesToReap := []\<rparr>)"

text \<open>
  Modelled from the spec: \<^verbatim>\<open>ResourceCleaner.Cleanup\<close>, which is not among the
  sources. It runs the stack of callbacks of its receiver, so it reads the receiver: on
  a nil cleaner that is a panic (the comment in the loop above and the spec both say
  so), on a cleaner it is one call, recorded with the address of the \<^verbatim>\<open>Resource\<close>
  it is made for.
\<close>

definition call_Cleanup :: "addr \<Rightarrow> 'c option \<Rightarrow> fault + ('r, 'c) event" where
  "call_Cleanup r cl = (case cl of None \<Rightarrow> Inl Panic | Some c \<Rightarrow> Inr (Cleanup r c))"

text \<open>
  One iteration of \<^verbatim>\<open>for _, r := range resourcesToReap\<close>, which runs without the
  lock: the log line, then \<^verbatim>\<open>r.cleaner.Cleanup()\<close>.
\<close>

definition reaper_cleanup :: "('r, 'c) world \<Rightarrow> fault + ('r, 'c) world" where
  "reaper_cleanup w =
     (case resourcesToReap w of
        [] \<Rightarrow> Inl Disabled
      | r # rs \<Rightarrow>
          (case deref (heap w) r of
             None \<Rightarrow> Inl Panic
           | Some e \<Rightarrow>
               (case call_Cleanup r (cleaner e) of
                  Inl f \<Rightarrow> Inl f
                | Inr called \<Rightarrow>
                    Inr (w\<lparr>resourcesToReap := rs,
                           events := events w @
                             [LogInfo (''cleaning up stale resource '' @ name e), called]\<rparr>))))"

subsection \<open>Schedules\<close>

text \<open>
  The transitions of the program: a call of one of the four methods by some goroutine,
  a receive by the waiter that holds a watcher, and the three steps of the reaper
  goroutine. At its \<^verbatim>\<open>select\<close> (nothing left to clean up) the reaper either sees
  the timer fire and runs the locked part of a cycle, with the order \<open>ks\<close> that
  \<^verbatim>\<open>range\<close> chose, or sees the closed \<^verbatim>\<open>closeChan\<close> and returns; when both
  are ready Go picks either. Between two cycles it runs the cleanup loop one entry at a
  time, and the other goroutines run in between. A waiter does nothing with its
  watcher but receive from it.
\<close>

datatype ('r, 'c) call =
    CallPut string "'r option" "'c option"
  | CallGet string
  | CallWatcherForResource string
  | CallClose
  | Receive chan
  | ReaperTimeout "string list"
  | ReaperCleanup
  | ReaperShutdown

fun step :: "('r \<Rightarrow> string) \<Rightarrow> ('r, 'c) call \<Rightarrow> ('r, 'c) world \<Rightarrow> fault + ('r, 'c) world" where
  "step ID (CallPut n res cl) w = (case Put n res cl w of Inl f \<Rightarrow> Inl f | Inr p \<Rightarrow> Inr (snd p))"
| "step ID (CallGet n) w = Inr (snd (Get ID n w))"
| "step ID (CallWatcherForResource n) w =
     (case WatcherForResource n w of Inl f \<Rightarrow> Inl f | Inr p \<Rightarrow> Inr (snd p))"
| "step ID CallClose w = Close w"
| "step ID (Receive ch) w = receive ch w"
| "step ID (ReaperTimeout ks) w =
     (if \<not> reaperExited w \<and> resourcesToReap w = [] \<and> range_order ks w
      then Inr (reaper_locked ks w) else Inl Disabled)"
| "step ID ReaperCleanup w = (if reaperExited w then Inl Disabled else reaper_cleanup w)"
| "step ID ReaperShutdown w =
     (if \<not> reaperExited w \<and> resourcesToReap w = [] \<and> chan_closed (closeChan (rc w))
      then Inr (w\<lparr>reaperExited := True\<rparr>) else Inl Disabled)"

fun run :: "('r \<Rightarrow> string) \<Rightarrow> ('r, 'c) call list \<Rightarrow> ('r, 'c) world \<Rightarrow> fault + ('r, 'c) world" where
  "run ID [] w = Inr w"
| "run ID (c # cs) w = (case step ID c w of Inl f \<Rightarrow> Inl f | Inr w' \<Rightarrow> run ID cs w')"

text \<open>A schedule in which every \<^verbatim>\<open>Put\<close> is given a resource that is not nil.\<close>

fun put_has_resource :: "('r, 'c) call \<Rightarrow> bool" where
  "put_has_resource (CallPut n None cl) = False"
| "put_has_resource c = True"

text \<open>A schedule in which every \<^verbatim>\<open>Put\<close> that is given a resource is given a
  cleaner that is not nil.\<close>

fun put_has_cleaner :: "('r, 'c) call \<Rightarrow> bool" where
  "put_has_cleaner (CallPut n (Some x) None) = False"
| "put_has_cleaner c = True"

subsection \<open>Invariants of the reachable states\<close>

text \<open>No two names of the registry point to the same \<^verbatim>\<open>Resource\<close>.\<close>

definition no_alias :: "('r, 'c) world \<Rightarrow> bool" where
  "no_alias w = (\<forall>n m r. resources (rc w) n = Some r \<and> resources (rc w) m = Some r \<longrightarrow> n = m)"

text \<open>Every pointer of the registry and of the reaper's list is allocated; the list has no
  duplicates and holds no pointer that the registry still holds.\<close>

definition registry_ok :: "('r, 'c) world \<Rightarrow> bool" where
  "registry_ok w =
     ((\<forall>n r. resources (rc w) n = Some r \<longrightarrow> r < length (heap w)) \<and>
      no_alias w \<and>
      distinct (resourcesToReap w) \<and>
      (\<forall>r \<in> set (resourcesToReap w). r < length (heap w) \<and> (\<forall>n. resources (rc w) n \<noteq> Some r)))"

text \<open>Every watcher of an entry is an allocated channel, no channel is attached twice, to
  one entry or to two; only allocated channels were sent to; every allocated channel has
  capacity one and is open.\<close>

definition watchers_ok :: "('r, 'c) world \<Rightarrow> bool" where
  "watchers_ok w =
     ((\<forall>a < length (heap w). distinct (watchers (heap w ! a)) \<and>
          (\<forall>ch \<in> set (watchers (heap w ! a)). ch < length (chans w))) \<and>
      (\<forall>a b ch. a < length (heap w) \<and> b < length (heap w) \<and>
          ch \<in> set (watchers (heap w ! a)) \<and> ch \<in> set (watchers (heap w ! b)) \<longrightarrow> a = b) \<and>
      (\<forall>ch. Sent ch \<in> set (events w) \<longrightarrow> ch < length (chans w)) \<and>
      (\<forall>ch < length (chans w). chan_cap (chans w ! ch) = 1 \<and> \<not> chan_closed (chans w ! ch)))"

text \<open>The \<open>closed\<close> flag says whether \<open>closeChan\<close> is closed, and only an entry that
  has a resource is stale.\<close>

definition flags_ok :: "('r, 'c) world \<Rightarrow> bool" where
  "flags_ok w =
     (chan_closed (closeChan (rc w)) = closed (rc w) \<and>
      (\<forall>a < length (heap w). stale (heap w ! a) \<longrightarrow> resource (heap w ! a) \<noteq> None))"

text \<open>An entry whose cleaner has run is in neither the registry nor the reaper's list.\<close>

definition cleaned_ok :: "('r, 'c) world \<Rightarrow> bool" where
  "cleaned_ok w =
     (\<forall>a c. Cleanup a c \<in> set (events w) \<longrightarrow>
        a < length (heap w) \<and> (\<forall>n. resources (rc w) n \<noteq> Some a) \<and>
        a \<notin> set (resourcesToReap w))"

text \<open>Whatever is on the reaper's list, and whatever was cleaned up, was put.\<close>

definition discard_ok :: "('r, 'c) world \<Rightarrow> bool" where
  "discard_ok w =
     ((\<forall>r \<in> set (resourcesToReap w). wasPut (deref (heap w) r)) \<and>
      (\<forall>a c. Cleanup a c \<in> set (events w) \<longrightarrow> wasPut (deref (heap w) a)))"

definition inv :: "('r, 'c) world \<Rightarrow> bool" where
  "inv w = (registry_ok w \<and> watchers_ok w \<and> flags_ok w \<and> cleaned_ok w \<and> discard_ok w)"

subsection \<open>Predicates that later states inherit\<close>

text \<open>The \<^verbatim>\<open>Resource\<close> at \<open>a\<close> is allocated, neither the registry nor the
  reaper's list points to it, and its cleaner has not been called.\<close>

definition released :: "addr \<Rightarrow> ('r, 'c) world \<Rightarrow> bool" where
  "released a w =
     (a < length (heap w) \<and> (\<forall>n. resources (rc w) n \<noteq> Some a) \<and>
      a \<notin> set (resourcesToReap w) \<and> (\<forall>c. Cleanup a c \<notin> set (events w)))"

text \<open>The channel \<open>ch\<close> is a watcher of the \<^verbatim>\<open>Resource\<close> at \<open>a\<close>, which has a
  resource, and nothing has been sent on it.\<close>

definition late_watcher :: "chan \<Rightarrow> addr \<Rightarrow> ('r, 'c) world \<Rightarrow> bool" where
  "late_watcher ch a w =
     (a < length (heap w) \<and> resource (heap w ! a) \<noteq> None \<and>
      ch \<in> set (watchers (heap w ! a)) \<and> Sent ch \<notin> set (events w))"

text \<open>Nothing has been sent to, and nothing is buffered in, a watcher of an entry
  without a resource; and no channel was sent to twice.\<close>

definition unsent_ok :: "('r, 'c) world \<Rightarrow> bool" where
  "unsent_ok w =
     ((\<forall>a < length (heap w). resource (heap w ! a) = None \<longrightarrow>
         (\<forall>ch \<in> set (watchers (heap w ! a)).
            Sent ch \<notin> set (events w) \<and> chan_len (chans w ! ch) = 0)) \<and>
      (\<forall>ch. count_list (events w) (Sent ch) \<le> 1))"

text \<open>Every entry that has a resource has a cleaner.\<close>

definition cleaner_ok :: "('r, 'c) world \<Rightarrow> bool" where
  "cleaner_ok w =
     (\<forall>a < length (heap w). resource (heap w ! a) \<noteq> None \<longrightarrow> cleaner (heap w ! a) \<noteq> None)"

subsection \<open>Example states\<close>

text \<open>The state after \<^verbatim>\<open>Put("a", r, c)\<close> on a new store, where \<^verbatim>\<open>r.ID()\<close>
  is \<^verbatim>\<open>"id-a"\<close>, and the state after \<^verbatim>\<open>WatcherForResource("b")\<close> on a new
  store. Resources and cleaners are named by strings, \<open>ID\<close> is the identity.\<close>

definition ex_put :: "(string, string) world" where
  "ex_put =
     \<lparr>rc = \<lparr>resources = [''a'' \<mapsto> 0], timeout = 0, closeChan = make_chan 1, closed = False\<rparr>,
      heap = [\<lparr>resource = Some ''id-a'', cleaner = Some ''c'', watchers = [], stale = False,
                name = ''a''\<rparr>],
      chans = [], resourcesToReap = [], reaperExited = False, events = []\<rparr>"

definition ex_watch :: "(string, string) world" where
  "ex_watch =
     \<lparr>rc = \<lparr>resources = [''b'' \<mapsto> 0], timeout = 0, closeChan = make_chan 1, closed = False\<rparr>,
      heap = [\<lparr>resource = None, cleaner = None, watchers = [0], stale = False, name = ''b''\<rparr>],
      chans = [make_chan 1], resourcesToReap = [], reaperExited = False, events = []\<rparr>"

text \<open>The state of a new store after \<^verbatim>\<open>WatcherForResource("a")\<close> and then
  \<^verbatim>\<open>Put("a", nil, nil)\<close>: the watcher has its notification in the buffer, and the
  entry still has no resource.\<close>

definition ex_nil_put :: "(string, string) world" where
  "ex_nil_put =
     \<lparr>rc = \<lparr>resources = [''a'' \<mapsto> 0], timeout = 0, closeChan = make_chan 1, closed = False\<rparr>,
      heap = [\<lparr>resource = None, cleaner = None, watchers = [0], stale = False, name = ''a''\<rparr>],
      chans = [\<lparr>chan_cap = 1, chan_len = 1, chan_closed = False\<rparr>],
      resourcesToReap = [], reaperExited = False, events = [Sent 0]\<rparr>"

section \<open>The transitions, one by one\<close>

subsection \<open>The reaper's loop under the lock\<close>

lemma reap_visit_cases:
  "reap_visit n w =
     (case resources (rc w) n of
        None \<Rightarrow> w
      | Some r \<Rightarrow>
          if \<not> wasPut (deref (heap w) r) then w
          else if stale (heap w ! r)
          then w\<lparr>resourcesToReap := resourcesToReap w @ [r],
                 rc := (rc w)\<lparr>resources := (resources (rc w))(n := None)\<rparr>,
                 heap := (heap w)[r := (heap w ! r)\<lparr>stale := True\<rparr>]\<rparr>
          else w\<lparr>heap := (heap w)[r := (heap w ! r)\<lparr>stale := True\<rparr>]\<rparr>)"
  by (simp add: reap_visit_def Let_def split: option.splits)

lemma reap_visit_no_alias: "no_alias w \<Longrightarrow> no_alias (reap_visit n w)"
  by (auto simp: reap_visit_cases no_alias_def split: option.splits if_splits)

lemma reap_visit_length [simp]: "length (heap (reap_visit n w)) = length (heap w)"
  by (simp add: reap_visit_cases split: option.splits)

lemma reap_range_length [simp]: "length (heap (reap_range ks w)) = length (heap w)"
  by (induction ks arbitrary: w) simp_all

lemma reap_range_no_alias: "no_alias w \<Longrightarrow> no_alias (reap_range ks w)"
  by (induction ks arbitrary: w) (simp_all add: reap_visit_no_alias)

text \<open>What a visit leaves alone.\<close>

lemma reap_visit_untouched [simp]:
  "chans (reap_visit n w) = chans w"
  "events (reap_visit n w) = events w"
  "reaperExited (reap_visit n w) = reaperExited w"
  "closed (rc (reap_visit n w)) = closed (rc w)"
  "closeChan (rc (reap_visit n w)) = closeChan (rc w)"
  "timeout (rc (reap_visit n w)) = timeout (rc w)"
  by (simp_all add: reap_visit_cases split: option.splits)

lemma reap_range_untouched [simp]:
  "chans (reap_range ks w) = chans w"
  "events (reap_range ks w) = events w"
  "reaperExited (reap_range ks w) = reaperExited w"
  "closed (rc (reap_range ks w)) = closed (rc w)"
  "closeChan (rc (reap_range ks w)) = closeChan (rc w)"
  "timeout (rc (reap_range ks w)) = timeout (rc w)"
  by (induction ks arbitrary: w) simp_all

text \<open>A visit changes nothing of a cell but its stale flag, and that only upwards.\<close>

lemma reap_visit_cell:
  "resource (heap (reap_visit n w) ! a) = resource (heap w ! a) \<and>
   cleaner (heap (reap_visit n w) ! a) = cleaner (heap w ! a) \<and>
   watchers (heap (reap_visit n w) ! a) = watchers (heap w ! a) \<and>
   name (heap (reap_visit n w) ! a) = name (heap w ! a) \<and>
   (stale (heap w ! a) \<longrightarrow> stale (heap (reap_visit n w) ! a)) \<and>
   (stale (heap (reap_visit n w) ! a) \<longrightarrow> stale (heap w ! a) \<or> wasPut (deref (heap w) a))"
  by (cases "a < length (heap w)")
     (auto simp: reap_visit_cases wasPut_def deref_def nth_list_update split: option.splits)

lemma reap_visit_wasPut [simp]: "wasPut (deref (heap (reap_visit n w)) a) = wasPut (deref (heap w) a)"
  using reap_visit_cell [of n w a] by (simp add: wasPut_def deref_def)

lemma reap_range_wasPut [simp]: "wasPut (deref (heap (reap_range ks w)) a) = wasPut (deref (heap w) a)"
  by (induction ks arbitrary: w) simp_all

lemma reap_range_cell:
  "resource (heap (reap_range ks w) ! a) = resource (heap w ! a) \<and>
   cleaner (heap (reap_range ks w) ! a) = cleaner (heap w ! a) \<and>
   watchers (heap (reap_range ks w) ! a) = watchers (heap w ! a) \<and>
   name (heap (reap_range ks w) ! a) = name (heap w ! a) \<and>
   (stale (heap w ! a) \<longrightarrow> stale (heap (reap_range ks w) ! a)) \<and>
   (stale (heap (reap_range ks w) ! a) \<longrightarrow> stale (heap w ! a) \<or> wasPut (deref (heap w) a))"
proof (induction ks arbitrary: w)
  case Nil
  show ?case by simp
next
  case (Cons k ks)
  show ?case
    using Cons.IH [of "reap_visit k w"] reap_visit_cell [of k w a] by auto
qed

text \<open>The registry only shrinks, and only by names whose entry was put.\<close>

lemma reap_visit_registry:
  "resources (rc (reap_visit k w)) n = resources (rc w) n \<or>
   (resources (rc (reap_visit k w)) n = None \<and> n = k \<and>
    (\<exists>r. resources (rc w) n = Some r \<and> wasPut (deref (heap w) r) \<and> stale (heap w ! r)))"
  by (auto simp: reap_visit_cases split: option.splits)

lemma reap_range_registry:
  "resources (rc (reap_range ks w)) n = resources (rc w) n \<or>
   (resources (rc (reap_range ks w)) n = None \<and> n \<in> set ks \<and>
    (\<exists>r. resources (rc w) n = Some r \<and> wasPut (deref (heap w) r)))"
proof (induction ks arbitrary: w)
  case Nil
  show ?case by simp
next
  case (Cons k ks)
  show ?case
    using Cons.IH [of "reap_visit k w"] reap_visit_registry [of k w n] by auto
qed

text \<open>A placeholder is skipped: by one visit, hence by the whole loop.\<close>

lemma reap_visit_placeholder:
  assumes "resources (rc w) n = Some r" and "\<not> wasPut (deref (heap w) r)"
  shows "resources (rc (reap_visit k w)) n = Some r \<and>
         deref (heap (reap_visit k w)) r = deref (heap w) r \<and>
         (r \<in> set (resourcesToReap (reap_visit k w)) \<longrightarrow> r \<in> set (resourcesToReap w))"
  using assms
  by (auto simp: reap_visit_cases deref_def wasPut_def nth_list_update split: option.splits)

lemma reap_range_placeholder:
  assumes "resources (rc w) n = Some r" and "\<not> wasPut (deref (heap w) r)"
  shows "resources (rc (reap_range ks w)) n = Some r \<and>
         deref (heap (reap_range ks w)) r = deref (heap w) r \<and>
         (r \<in> set (resourcesToReap (reap_range ks w)) \<longrightarrow> r \<in> set (resourcesToReap w))"
  using assms
proof (induction ks arbitrary: w)
  case Nil
  then show ?case by simp
next
  case (Cons k ks)
  have v: "resources (rc (reap_visit k w)) n = Some r \<and>
         deref (heap (reap_visit k w)) r = deref (heap w) r \<and>
         (r \<in> set (resourcesToReap (reap_visit k w)) \<longrightarrow> r \<in> set (resourcesToReap w))"
    using reap_visit_placeholder [OF Cons.prems] .
  then have "\<not> wasPut (deref (heap (reap_visit k w)) r)"
    using Cons.prems by simp
  with v Cons.IH [of "reap_visit k w"] show ?case by simp
qed

text \<open>Whatever the loop puts on the list was in the registry, put and stale.\<close>

lemma reap_visit_reaped:
  "a \<in> set (resourcesToReap (reap_visit k w)) \<Longrightarrow>
   a \<in> set (resourcesToReap w) \<or>
   (resources (rc w) k = Some a \<and> wasPut (deref (heap w) a) \<and> stale (heap w ! a))"
  by (auto simp: reap_visit_cases split: option.splits if_splits)

lemma reap_range_reaped:
  "a \<in> set (resourcesToReap (reap_range ks w)) \<Longrightarrow>
   a \<in> set (resourcesToReap w) \<or>
   (\<exists>k \<in> set ks. resources (rc w) k = Some a \<and> wasPut (deref (heap w) a))"
proof (induction ks arbitrary: w)
  case Nil
  then show ?case by simp
next
  case (Cons k ks)
  from Cons.prems have "a \<in> set (resourcesToReap (reap_range ks (reap_visit k w)))"
    by simp
  from Cons.IH [OF this] show ?case
  proof
    assume "a \<in> set (resourcesToReap (reap_visit k w))"
    from reap_visit_reaped [OF this] show ?thesis by auto
  next
    assume "\<exists>j \<in> set ks. resources (rc (reap_visit k w)) j = Some a \<and>
              wasPut (deref (heap (reap_visit k w)) a)"
    then obtain j where j: "j \<in> set ks" "resources (rc (reap_visit k w)) j = Some a"
      "wasPut (deref (heap w) a)" by auto
    with reap_visit_registry [of k w j] have "resources (rc w) j = Some a" by auto
    with j show ?thesis by auto
  qed
qed

lemma reap_visit_list_grows:
  "set (resourcesToReap w) \<subseteq> set (resourcesToReap (reap_visit k w))"
  by (auto simp: reap_visit_cases split: option.splits)

lemma reap_range_list_grows:
  "set (resourcesToReap w) \<subseteq> set (resourcesToReap (reap_range ks w))"
proof (induction ks arbitrary: w)
  case Nil
  show ?case by simp
next
  case (Cons k ks)
  show ?case
    using Cons.IH [of "reap_visit k w"] reap_visit_list_grows [of w k] by auto
qed

text \<open>Without aliasing, the visit of one name leaves the entries of the others alone.\<close>

lemma reap_visit_other:
  assumes "no_alias w" and "k \<noteq> n" and "resources (rc w) n = Some r"
  shows "resources (rc (reap_visit k w)) n = Some r \<and> heap (reap_visit k w) ! r = heap w ! r"
proof -
  have "\<And>x. resources (rc w) k = Some x \<Longrightarrow> x \<noteq> r"
    using assms unfolding no_alias_def by blast
  then show ?thesis
    using assms(3) by (auto simp: reap_visit_cases split: option.splits)
qed

lemma reap_range_other:
  assumes "no_alias w" and "n \<notin> set ks" and "resources (rc w) n = Some r"
  shows "resources (rc (reap_range ks w)) n = Some r \<and> heap (reap_range ks w) ! r = heap w ! r"
  using assms
proof (induction ks arbitrary: w)
  case Nil
  then show ?case by simp
next
  case (Cons k ks)
  from Cons.prems have kn: "k \<noteq> n" and nks: "n \<notin> set ks" by auto
  note v = reap_visit_other [OF Cons.prems(1) kn Cons.prems(3)]
  from Cons.IH [OF reap_visit_no_alias [OF Cons.prems(1)] nks conjunct1 [OF v]] v
  show ?case by simp
qed

text \<open>The visit of a name whose entry was put.\<close>

lemma reap_visit_self:
  assumes "resources (rc w) n = Some r" and "wasPut (deref (heap w) r)"
  shows "(stale (heap w ! r) \<longrightarrow>
            resources (rc (reap_visit n w)) n = None \<and>
            resourcesToReap (reap_visit n w) = resourcesToReap w @ [r]) \<and>
         (\<not> stale (heap w ! r) \<longrightarrow>
            resources (rc (reap_visit n w)) n = Some r \<and> stale (heap (reap_visit n w) ! r) \<and>
            resourcesToReap (reap_visit n w) = resourcesToReap w)"
  using assms by (auto simp: reap_visit_cases wasPut_def deref_def split: if_splits)

lemma reap_range_populated:
  assumes "no_alias w" and "distinct ks" and "n \<in> set ks"
    and "resources (rc w) n = Some r" and "wasPut (deref (heap w) r)"
    and "r \<notin> set (resourcesToReap w)"
  shows "(stale (heap w ! r) \<longrightarrow>
            resources (rc (reap_range ks w)) n = None \<and>
            r \<in> set (resourcesToReap (reap_range ks w))) \<and>
         (\<not> stale (heap w ! r) \<longrightarrow>
            resources (rc (reap_range ks w)) n = Some r \<and>
            stale (heap (reap_range ks w) ! r) \<and>
            r \<notin> set (resourcesToReap (reap_range ks w)))"
  using assms
proof (induction ks arbitrary: w)
  case Nil
  then show ?case by simp
next
  case (Cons k ks)
  let ?v = "reap_visit k w"
  have na: "no_alias ?v" using Cons.prems(1) by (rule reap_visit_no_alias)
  show ?case
  proof (cases "k = n")
    case True
    with Cons.prems have nks: "n \<notin> set ks" by simp
    note self = reap_visit_self [OF Cons.prems(4) Cons.prems(5)]
    show ?thesis
    proof (cases "stale (heap w ! r)")
      case True
      with self have gone: "resources (rc (reap_visit n w)) n = None"
        and listed: "r \<in> set (resourcesToReap (reap_visit n w))" by auto
      from gone reap_range_registry [of ks "reap_visit n w" n]
      have "resources (rc (reap_range ks (reap_visit n w))) n = None" by auto
      moreover from listed reap_range_list_grows [of "reap_visit n w" ks]
      have "r \<in> set (resourcesToReap (reap_range ks (reap_visit n w)))" by auto
      ultimately show ?thesis using True \<open>k = n\<close> by simp
    next
      case False
      with self have kept: "resources (rc (reap_visit n w)) n = Some r"
        and marked: "stale (heap (reap_visit n w) ! r)"
        and same: "resourcesToReap (reap_visit n w) = resourcesToReap w" by auto
      note rest = reap_range_other [OF na [unfolded \<open>k = n\<close>] nks kept]
      have "r \<notin> set (resourcesToReap (reap_range ks (reap_visit n w)))"
      proof
        assume "r \<in> set (resourcesToReap (reap_range ks (reap_visit n w)))"
        from reap_range_reaped [OF this] same Cons.prems(6)
        obtain j where j: "j \<in> set ks" "resources (rc (reap_visit n w)) j = Some r" by auto
        with kept na [unfolded \<open>k = n\<close>] have "j = n" by (auto simp: no_alias_def)
        with j nks show False by simp
      qed
      with rest marked False \<open>k = n\<close> show ?thesis by simp
    qed
  next
    case False
    with Cons.prems have nks: "n \<in> set ks" and dks: "distinct ks" by auto
    note v = reap_visit_other [OF Cons.prems(1) False Cons.prems(4)]
    have put: "wasPut (deref (heap ?v) r)" using Cons.prems(5) by simp
    have nl: "r \<notin> set (resourcesToReap ?v)"
    proof
      assume "r \<in> set (resourcesToReap ?v)"
      from reap_visit_reaped [OF this] Cons.prems(6)
      have "resources (rc w) k = Some r" by auto
      with Cons.prems(1) Cons.prems(4) False show False by (auto simp: no_alias_def)
    qed
    from Cons.IH [OF na dks nks conjunct1 [OF v] put nl] v show ?thesis by simp
  qed
qed

subsection \<open>What each transition does\<close>

lemma send_effect:
  assumes "send ch w = Inr w'"
  shows "ch < length (chans w) \<and> \<not> chan_closed (chans w ! ch) \<and>
         chan_len (chans w ! ch) < chan_cap (chans w ! ch) \<and>
         w' = w\<lparr>chans := (chans w)[ch := (chans w ! ch)\<lparr>chan_len := chan_len (chans w ! ch) + 1\<rparr>],
                events := events w @ [Sent ch]\<rparr>"
  using assms by (auto simp: send_def deref_def split: if_splits)

lemma notify_effect:
  assumes "notify chs w = Inr w'"
  shows "rc w' = rc w \<and> heap w' = heap w \<and> resourcesToReap w' = resourcesToReap w \<and>
         reaperExited w' = reaperExited w \<and> events w' = events w @ map Sent chs \<and>
         length (chans w') = length (chans w) \<and>
         (\<forall>i. chan_cap (chans w' ! i) = chan_cap (chans w ! i) \<and>
              chan_closed (chans w' ! i) = chan_closed (chans w ! i) \<and>
              (i \<notin> set chs \<longrightarrow> chans w' ! i = chans w ! i)) \<and>
         (\<forall>ch \<in> set chs. ch < length (chans w))"
  using assms
proof (induction chs arbitrary: w)
  case Nil
  then show ?case by simp
next
  case (Cons ch chs)
  from Cons.prems obtain w1 where s: "send ch w = Inr w1" and n: "notify chs w1 = Inr w'"
    by (auto split: sum.splits)
  from send_effect [OF s] Cons.IH [OF n] show ?case
    by (auto simp: nth_list_update)
qed

lemma Put_cases:
  assumes "Put n res cl w = Inr (err, w')"
  shows "(\<exists>r. resources (rc w) n = Some r \<and> wasPut (deref (heap w) r) \<and>
              err = Some (duplicate_error n) \<and> w' = w) \<or>
         (\<exists>r. resources (rc w) n = Some r \<and> r < length (heap w) \<and>
              resource (heap w ! r) = None \<and> err = None \<and>
              notify (watchers (heap w ! r))
                (w\<lparr>heap := (heap w)[r := (heap w ! r)\<lparr>resource := res, cleaner := cl,
                                                       name := n\<rparr>]\<rparr>) = Inr w') \<or>
         (resources (rc w) n = None \<and> err = None \<and>
          w' = w\<lparr>heap := heap w @ [\<lparr>resource = res, cleaner = cl, watchers = [],
                                     stale = False, name = n\<rparr>],
                 rc := (rc w)\<lparr>resources := (resources (rc w))(n \<mapsto> length (heap w))\<rparr>\<rparr>)"
proof (cases "resources (rc w) n")
  case None
  with assms show ?thesis
    by (auto simp: Put_def lookup_or_create_def deref_def wasPut_def)
next
  case (Some r)
  with assms show ?thesis
    by (auto simp: Put_def lookup_or_create_def deref_def wasPut_def
             split: if_splits sum.splits)
qed

lemma Get_cases:
  assumes "Get ID n w = (i, w')"
  shows "(i = '''' \<and> w' = w) \<or>
         (\<exists>r res. resources (rc w) n = Some r \<and> r < length (heap w) \<and>
              resource (heap w ! r) = Some res \<and> i = ID res \<and>
              w' = w\<lparr>rc := (rc w)\<lparr>resources := (resources (rc w))(n := None)\<rparr>,
                     events := events w @ [SetCreated res]\<rparr>)"
  using assms
  by (auto simp: Get_def wasPut_def deref_def split: option.splits if_splits)

lemma WatcherForResource_cases:
  assumes "WatcherForResource n w = Inr (ch, w')"
  shows "ch = length (chans w) \<and>
         ((resources (rc w) n = None \<and>
           w' = w\<lparr>chans := chans w @ [make_chan 1],
                  heap := heap w @ [\<lparr>resource = None, cleaner = None, watchers = [ch],
                                      stale = False, name = n\<rparr>],
                  rc := (rc w)\<lparr>resources := (resources (rc w))(n \<mapsto> length (heap w))\<rparr>\<rparr>) \<or>
          (\<exists>r. resources (rc w) n = Some r \<and> r < length (heap w) \<and>
               w' = w\<lparr>chans := chans w @ [make_chan 1],
                      heap := (heap w)[r := (heap w ! r)\<lparr>watchers := watchers (heap w ! r) @ [ch]\<rparr>]\<rparr>))"
  using assms
  by (auto simp: WatcherForResource_def deref_def Let_def split: option.splits if_splits)

lemma Close_cases:
  assumes "Close w = Inr w'"
  shows "(closed (rc w) \<and> w' = w) \<or>
         (\<not> closed (rc w) \<and> \<not> chan_closed (closeChan (rc w)) \<and>
          w' = w\<lparr>rc := (rc w)\<lparr>closeChan := (closeChan (rc w))\<lparr>chan_closed := True\<rparr>,
                            closed := True\<rparr>\<rparr>)"
  using assms by (auto simp: Close_def close_chan_def split: if_splits)

lemma receive_effect:
  assumes "receive ch w = Inr w'"
  shows "ch < length (chans w) \<and> 0 < chan_len (chans w ! ch) \<and>
         w' = w\<lparr>chans := (chans w)[ch := (chans w ! ch)\<lparr>chan_len := chan_len (chans w ! ch) - 1\<rparr>]\<rparr>"
  using assms by (auto simp: receive_def deref_def split: if_splits)

lemma reaper_cleanup_effect:
  assumes "reaper_cleanup w = Inr w'"
  shows "\<exists>r rs c. resourcesToReap w = r # rs \<and> r < length (heap w) \<and>
           cleaner (heap w ! r) = Some c \<and>
           w' = w\<lparr>resourcesToReap := rs,
                  events := events w @
                    [LogInfo (''cleaning up stale resource '' @ name (heap w ! r)), Cleanup r c]\<rparr>"
  using assms
  by (auto simp: reaper_cleanup_def call_Cleanup_def deref_def
      split: list.splits option.splits if_splits)

section \<open>The invariant\<close>

lemma inv_New: "inv (NewWithTimeout t)"
  by (simp add: inv_def registry_ok_def watchers_ok_def flags_ok_def cleaned_ok_def
        discard_ok_def no_alias_def NewWithTimeout_def make_chan_def)

subsection \<open>registry_ok\<close>

lemma registry_ok_Put:
  assumes "Put n res cl w = Inr (err, w')" and "registry_ok w"
  shows "registry_ok w'"
  using Put_cases [OF assms(1)]
proof (elim disjE exE conjE)
  fix r assume "w' = w" with assms(2) show ?thesis by simp
next
  fix r
  assume "notify (watchers (heap w ! r))
            (w\<lparr>heap := (heap w)[r := (heap w ! r)\<lparr>resource := res, cleaner := cl, name := n\<rparr>]\<rparr>) = Inr w'"
  from notify_effect [OF this] assms(2) show ?thesis
    by (simp add: registry_ok_def no_alias_def)
next
  assume "resources (rc w) n = None"
    and "w' = w\<lparr>heap := heap w @ [\<lparr>resource = res, cleaner = cl, watchers = [],
                                     stale = False, name = n\<rparr>],
                 rc := (rc w)\<lparr>resources := (resources (rc w))(n \<mapsto> length (heap w))\<rparr>\<rparr>"
  with assms(2) show ?thesis
    by (fastforce simp: registry_ok_def no_alias_def less_Suc_eq)
qed

lemma registry_ok_Get:
  assumes "Get ID n w = (i, w')" and "registry_ok w"
  shows "registry_ok w'"
  using Get_cases [OF assms(1)] assms(2)
  by (auto simp: registry_ok_def no_alias_def split: if_splits)

lemma registry_ok_Watcher:
  assumes "WatcherForResource n w = Inr (ch, w')" and "registry_ok w"
  shows "registry_ok w'"
  using WatcherForResource_cases [OF assms(1)] assms(2)
  by (fastforce simp: registry_ok_def no_alias_def less_Suc_eq)

lemma registry_ok_reap_visit:
  assumes "registry_ok w"
  shows "registry_ok (reap_visit k w)"
proof (cases "resources (rc w) k")
  case None
  with assms show ?thesis by (simp add: reap_visit_cases)
next
  case (Some r)
  then have "\<And>m. m \<noteq> k \<Longrightarrow> resources (rc w) m \<noteq> Some r"
    using assms unfolding registry_ok_def no_alias_def by blast
  moreover have "r \<notin> set (resourcesToReap w)"
    using assms Some unfolding registry_ok_def by blast
  ultimately show ?thesis
    using assms Some
    by (auto simp: reap_visit_cases registry_ok_def no_alias_def)
qed

lemma registry_ok_reap_range: "registry_ok w \<Longrightarrow> registry_ok (reap_range ks w)"
  by (induction ks arbitrary: w) (simp_all add: registry_ok_reap_visit)

lemma registry_ok_reaper_locked: "registry_ok w \<Longrightarrow> registry_ok (reaper_locked ks w)"
  unfolding reaper_locked_def
  by (rule registry_ok_reap_range) (simp add: registry_ok_def no_alias_def)

lemma registry_ok_step:
  assumes "step ID c w = Inr w'" and "registry_ok w"
  shows "registry_ok w'"
proof (cases c)
  case (CallPut n res cl)
  with assms(1) obtain err where "Put n res cl w = Inr (err, w')"
    by (cases "Put n res cl w") auto
  from registry_ok_Put [OF this assms(2)] show ?thesis .
next
  case (CallGet n)
  with assms(1) have "Get ID n w = (fst (Get ID n w), w')" by auto
  from registry_ok_Get [OF this assms(2)] show ?thesis .
next
  case (CallWatcherForResource n)
  with assms(1) obtain ch where "WatcherForResource n w = Inr (ch, w')"
    by (cases "WatcherForResource n w") auto
  from registry_ok_Watcher [OF this assms(2)] show ?thesis .
next
  case CallClose
  with assms(1) have "Close w = Inr w'" by simp
  from Close_cases [OF this] assms(2) show ?thesis
    by (auto simp: registry_ok_def no_alias_def)
next
  case (Receive ch)
  with assms(1) have "receive ch w = Inr w'" by simp
  from receive_effect [OF this] assms(2) show ?thesis
    by (auto simp: registry_ok_def no_alias_def)
next
  case (ReaperTimeout ks)
  with assms(1) have "w' = reaper_locked ks w" by (auto split: if_splits)
  with registry_ok_reaper_locked [OF assms(2)] show ?thesis by simp
next
  case ReaperCleanup
  with assms(1) have "reaper_cleanup w = Inr w'" by (auto split: if_splits)
  from reaper_cleanup_effect [OF this] assms(2) show ?thesis
    by (auto simp: registry_ok_def no_alias_def)
next
  case ReaperShutdown
  with assms show ?thesis
    by (auto simp: registry_ok_def no_alias_def split: if_splits)
qed

subsection \<open>watchers_ok\<close>

lemma watchers_ok_Put:
  assumes "Put n res cl w = Inr (err, w')" and "watchers_ok w"
  shows "watchers_ok w'"
  using Put_cases [OF assms(1)]
proof (elim disjE exE conjE)
  fix r assume "w' = w" with assms(2) show ?thesis by simp
next
  fix r
  assume r: "r < length (heap w)"
  assume "notify (watchers (heap w ! r))
            (w\<lparr>heap := (heap w)[r := (heap w ! r)\<lparr>resource := res, cleaner := cl, name := n\<rparr>]\<rparr>) = Inr w'"
  note e = notify_effect [OF this]
  from e have h: "heap w' = (heap w)[r := (heap w ! r)\<lparr>resource := res, cleaner := cl, name := n\<rparr>]"
    by simp
  have ws: "\<And>a. watchers (heap w' ! a) = watchers (heap w ! a)"
    using r by (simp add: h nth_list_update)
  have len: "length (heap w') = length (heap w)" by (simp add: h)
  from assms(2) r have "\<forall>ch \<in> set (watchers (heap w ! r)). ch < length (chans w)"
    by (simp add: watchers_ok_def)
  with assms(2) e show ?thesis
    unfolding watchers_ok_def ws len by auto
next
  assume "w' = w\<lparr>heap := heap w @ [\<lparr>resource = res, cleaner = cl, watchers = [],
                                     stale = False, name = n\<rparr>],
                 rc := (rc w)\<lparr>resources := (resources (rc w))(n \<mapsto> length (heap w))\<rparr>\<rparr>"
  with assms(2) show ?thesis
    by (auto simp: watchers_ok_def nth_append less_Suc_eq)
qed

lemma watchers_ok_Get:
  assumes "Get ID n w = (i, w')" and "watchers_ok w"
  shows "watchers_ok w'"
  using Get_cases [OF assms(1)] assms(2)
  by (elim disjE exE conjE) (simp_all add: watchers_ok_def)

lemma watchers_ok_Watcher:
  assumes "WatcherForResource n w = Inr (ch, w')" and "watchers_ok w"
  shows "watchers_ok w'"
proof -
  from WatcherForResource_cases [OF assms(1)] have ch: "ch = length (chans w)" by simp
  have fresh: "\<And>a. a < length (heap w) \<Longrightarrow> ch \<notin> set (watchers (heap w ! a))"
    using assms(2) unfolding watchers_ok_def ch by fastforce
  from WatcherForResource_cases [OF assms(1)] show ?thesis
  proof (elim disjE exE conjE)
    assume "w' = w\<lparr>chans := chans w @ [make_chan 1],
                  heap := heap w @ [\<lparr>resource = None, cleaner = None, watchers = [ch],
                                      stale = False, name = n\<rparr>],
                  rc := (rc w)\<lparr>resources := (resources (rc w))(n \<mapsto> length (heap w))\<rparr>\<rparr>"
    with assms(2) fresh show ?thesis
      by (auto simp: watchers_ok_def nth_append less_Suc_eq make_chan_def ch)
  next
    fix r
    assume r: "r < length (heap w)"
      and "w' = w\<lparr>chans := chans w @ [make_chan 1],
                  heap := (heap w)[r := (heap w ! r)\<lparr>watchers := watchers (heap w ! r) @ [ch]\<rparr>]\<rparr>"
    with assms(2) fresh show ?thesis
      by (auto simp: watchers_ok_def nth_append nth_list_update less_Suc_eq make_chan_def ch; blast)
  qed
qed

lemma watchers_ok_reaper_locked:
  assumes "watchers_ok w"
  shows "watchers_ok (reaper_locked ks w)"
proof -
  have "\<And>a. watchers (heap (reaper_locked ks w) ! a) = watchers (heap w ! a)"
    using reap_range_cell [of ks "w\<lparr>resourcesToReap := []\<rparr>"] by (simp add: reaper_locked_def)
  with assms show ?thesis
    by (simp add: watchers_ok_def reaper_locked_def)
qed

lemma watchers_ok_step:
  assumes "step ID c w = Inr w'" and "watchers_ok w"
  shows "watchers_ok w'"
proof (cases c)
  case (CallPut n res cl)
  with assms(1) obtain err where "Put n res cl w = Inr (err, w')"
    by (cases "Put n res cl w") auto
  from watchers_ok_Put [OF this assms(2)] show ?thesis .
next
  case (CallGet n)
  with assms(1) have "Get ID n w = (fst (Get ID n w), w')" by auto
  from watchers_ok_Get [OF this assms(2)] show ?thesis .
next
  case (CallWatcherForResource n)
  with assms(1) obtain ch where "WatcherForResource n w = Inr (ch, w')"
    by (cases "WatcherForResource n w") auto
  from watchers_ok_Watcher [OF this assms(2)] show ?thesis .
next
  case CallClose
  with assms(1) have "Close w = Inr w'" by simp
  from Close_cases [OF this] assms(2) show ?thesis
    by (elim disjE exE conjE) (simp_all add: watchers_ok_def)
next
  case (Receive ch)
  with assms(1) have "receive ch w = Inr w'" by simp
  from receive_effect [OF this] assms(2) show ?thesis
    by (elim conjE) (simp add: watchers_ok_def nth_list_update)
next
  case (ReaperTimeout ks)
  with assms(1) have "w' = reaper_locked ks w" by (auto split: if_splits)
  with watchers_ok_reaper_locked [OF assms(2)] show ?thesis by simp
next
  case ReaperCleanup
  with assms(1) have "reaper_cleanup w = Inr w'" by (auto split: if_splits)
  from reaper_cleanup_effect [OF this] assms(2) show ?thesis
    by (elim disjE exE conjE) (simp add: watchers_ok_def)
next
  case ReaperShutdown
  with assms have "w' = w\<lparr>reaperExited := True\<rparr>" by (auto split: if_splits)
  with assms(2) show ?thesis by (simp add: watchers_ok_def)
qed

subsection \<open>flags_ok\<close>

lemma flags_ok_Put:
  assumes "Put n res cl w = Inr (err, w')" and "flags_ok w"
  shows "flags_ok w'"
  using Put_cases [OF assms(1)]
proof (elim disjE exE conjE)
  fix r assume "w' = w" with assms(2) show ?thesis by simp
next
  fix r
  assume r: "r < length (heap w)" "resource (heap w ! r) = None"
  assume "notify (watchers (heap w ! r))
            (w\<lparr>heap := (heap w)[r := (heap w ! r)\<lparr>resource := res, cleaner := cl, name := n\<rparr>]\<rparr>) = Inr w'"
  from notify_effect [OF this] assms(2) r show ?thesis
    by (auto simp: flags_ok_def nth_list_update)
next
  assume "w' = w\<lparr>heap := heap w @ [\<lparr>resource = res, cleaner = cl, watchers = [],
                                     stale = False, name = n\<rparr>],
                 rc := (rc w)\<lparr>resources := (resources (rc w))(n \<mapsto> length (heap w))\<rparr>\<rparr>"
  with assms(2) show ?thesis
    by (auto simp: flags_ok_def nth_append less_Suc_eq)
qed

lemma flags_ok_reaper_locked:
  assumes "flags_ok w"
  shows "flags_ok (reaper_locked ks w)"
proof -
  have "\<And>a. resource (heap (reaper_locked ks w) ! a) = resource (heap w ! a) \<and>
     (stale (heap (reaper_locked ks w) ! a) \<longrightarrow> stale (heap w ! a) \<or> wasPut (deref (heap w) a))"
    using reap_range_cell [of ks "w\<lparr>resourcesToReap := []\<rparr>"] by (simp add: reaper_locked_def)
  then have c: "\<And>a. resource (heap (reaper_locked ks w) ! a) = resource (heap w ! a)"
    and s: "\<And>a. stale (heap (reaper_locked ks w) ! a) \<Longrightarrow>
               stale (heap w ! a) \<or> wasPut (deref (heap w) a)"
    by blast+
  have "resource (heap w ! a) \<noteq> None"
    if "a < length (heap w)" "stale (heap (reaper_locked ks w) ! a)" for a
    using s [OF that(2)] assms that(1) by (auto simp: flags_ok_def wasPut_def deref_def)
  with assms show ?thesis
    by (simp add: flags_ok_def c) (simp add: reaper_locked_def)
qed

lemma flags_ok_step:
  assumes "step ID c w = Inr w'" and "flags_ok w"
  shows "flags_ok w'"
proof (cases c)
  case (CallPut n res cl)
  with assms(1) obtain err where "Put n res cl w = Inr (err, w')"
    by (cases "Put n res cl w") auto
  from flags_ok_Put [OF this assms(2)] show ?thesis .
next
  case (CallGet n)
  with assms(1) have "Get ID n w = (fst (Get ID n w), w')" by auto
  from Get_cases [OF this] assms(2) show ?thesis
    by (auto simp: flags_ok_def)
next
  case (CallWatcherForResource n)
  with assms(1) obtain ch where "WatcherForResource n w = Inr (ch, w')"
    by (cases "WatcherForResource n w") auto
  from WatcherForResource_cases [OF this] assms(2) show ?thesis
    by (auto simp: flags_ok_def nth_append nth_list_update less_Suc_eq split: if_splits)
next
  case CallClose
  with assms(1) have "Close w = Inr w'" by simp
  from Close_cases [OF this] assms(2) show ?thesis
    by (auto simp: flags_ok_def)
next
  case (Receive ch)
  with assms(1) have "receive ch w = Inr w'" by simp
  from receive_effect [OF this] assms(2) show ?thesis
    by (auto simp: flags_ok_def)
next
  case (ReaperTimeout ks)
  with assms(1) have "w' = reaper_locked ks w" by (auto split: if_splits)
  with flags_ok_reaper_locked [OF assms(2)] show ?thesis by simp
next
  case ReaperCleanup
  with assms(1) have "reaper_cleanup w = Inr w'" by (auto split: if_splits)
  from reaper_cleanup_effect [OF this] assms(2) show ?thesis
    by (auto simp: flags_ok_def)
next
  case ReaperShutdown
  with assms show ?thesis
    by (auto simp: flags_ok_def split: if_splits)
qed

subsection \<open>cleaned_ok\<close>

lemma cleaned_ok_Put:
  assumes "Put n res cl w = Inr (err, w')" and "cleaned_ok w"
  shows "cleaned_ok w'"
  using Put_cases [OF assms(1)]
proof (elim disjE exE conjE)
  fix r assume "w' = w" with assms(2) show ?thesis by simp
next
  fix r
  assume "notify (watchers (heap w ! r))
            (w\<lparr>heap := (heap w)[r := (heap w ! r)\<lparr>resource := res, cleaner := cl, name := n\<rparr>]\<rparr>) = Inr w'"
  from notify_effect [OF this] assms(2) show ?thesis
    by (auto simp: cleaned_ok_def)
next
  assume "w' = w\<lparr>heap := heap w @ [\<lparr>resource = res, cleaner = cl, watchers = [],
                                     stale = False, name = n\<rparr>],
                 rc := (rc w)\<lparr>resources := (resources (rc w))(n \<mapsto> length (heap w))\<rparr>\<rparr>"
  with assms(2) show ?thesis
    by (fastforce simp: cleaned_ok_def less_Suc_eq)
qed

lemma cleaned_ok_reaper_locked:
  assumes "cleaned_ok w"
  shows "cleaned_ok (reaper_locked ks w)"
  unfolding cleaned_ok_def
proof (intro allI impI)
  fix a c
  assume "Cleanup a c \<in> set (events (reaper_locked ks w))"
  then have "Cleanup a c \<in> set (events w)" by (simp add: reaper_locked_def)
  with assms have a: "a < length (heap w)" "\<And>n. resources (rc w) n \<noteq> Some a"
    by (auto simp: cleaned_ok_def)
  have "resources (rc (reaper_locked ks w)) n \<noteq> Some a" for n
    using reap_range_registry [of ks "w\<lparr>resourcesToReap := []\<rparr>" n] a(2) [of n]
    by (auto simp: reaper_locked_def)
  moreover have "a \<notin> set (resourcesToReap (reaper_locked ks w))"
  proof
    assume "a \<in> set (resourcesToReap (reaper_locked ks w))"
    then have "a \<in> set (resourcesToReap (reap_range ks (w\<lparr>resourcesToReap := []\<rparr>)))"
      by (simp add: reaper_locked_def)
    from reap_range_reaped [OF this] a(2) show False by auto
  qed
  ultimately show "a < length (heap (reaper_locked ks w)) \<and>
       (\<forall>n. resources (rc (reaper_locked ks w)) n \<noteq> Some a) \<and>
       a \<notin> set (resourcesToReap (reaper_locked ks w))"
    using a(1) by (simp add: reaper_locked_def)
qed

lemma cleaned_ok_step:
  assumes "step ID c w = Inr w'" and "cleaned_ok w" and "registry_ok w"
  shows "cleaned_ok w'"
proof (cases c)
  case (CallPut n res cl)
  with assms(1) obtain err where "Put n res cl w = Inr (err, w')"
    by (cases "Put n res cl w") auto
  from cleaned_ok_Put [OF this assms(2)] show ?thesis .
next
  case (CallGet n)
  with assms(1) have "Get ID n w = (fst (Get ID n w), w')" by auto
  from Get_cases [OF this] assms(2) show ?thesis
    by (auto simp: cleaned_ok_def split: if_splits; blast)
next
  case (CallWatcherForResource n)
  with assms(1) obtain ch where "WatcherForResource n w = Inr (ch, w')"
    by (cases "WatcherForResource n w") auto
  from WatcherForResource_cases [OF this] assms(2) show ?thesis
    by (fastforce simp: cleaned_ok_def less_Suc_eq)
next
  case CallClose
  with assms(1) have "Close w = Inr w'" by simp
  from Close_cases [OF this] assms(2) show ?thesis
    by (elim disjE exE conjE) (simp_all add: cleaned_ok_def)
next
  case (Receive ch)
  with assms(1) have "receive ch w = Inr w'" by simp
  from receive_effect [OF this] assms(2) show ?thesis
    by (elim conjE) (simp add: cleaned_ok_def)
next
  case (ReaperTimeout ks)
  with assms(1) have "w' = reaper_locked ks w" by (auto split: if_splits)
  with cleaned_ok_reaper_locked [OF assms(2)] show ?thesis by simp
next
  case ReaperCleanup
  with assms(1) have "reaper_cleanup w = Inr w'" by (auto split: if_splits)
  from reaper_cleanup_effect [OF this] assms(2) assms(3) show ?thesis
    by (auto simp: cleaned_ok_def registry_ok_def; blast)
next
  case ReaperShutdown
  with assms have "w' = w\<lparr>reaperExited := True\<rparr>" by (auto split: if_splits)
  with assms(2) show ?thesis by (simp add: cleaned_ok_def)
qed

subsection \<open>discard_ok\<close>

lemma wasPut_update_other:
  assumes "a \<noteq> r"
  shows "wasPut (deref (h[r := x]) a) = wasPut (deref h a)"
  using assms by (simp add: wasPut_def deref_def)

lemma wasPut_append:
  assumes "wasPut (deref h a)"
  shows "wasPut (deref (h @ [x]) a)"
  using assms by (auto simp: wasPut_def deref_def nth_append split: if_splits)

lemma wasPut_update_watchers:
  "wasPut (deref (h[r := (h ! r)\<lparr>watchers := ws\<rparr>]) a) = wasPut (deref h a)"
  by (cases "a = r") (auto simp: wasPut_def deref_def)

lemma discard_ok_Put:
  assumes "Put n res cl w = Inr (err, w')" and "discard_ok w" and "registry_ok w"
    and "cleaned_ok w"
  shows "discard_ok w'"
  using Put_cases [OF assms(1)]
proof (elim disjE exE conjE)
  fix r assume "w' = w" with assms(2) show ?thesis by simp
next
  fix r
  assume r: "resources (rc w) n = Some r"
  assume "notify (watchers (heap w ! r))
            (w\<lparr>heap := (heap w)[r := (heap w ! r)\<lparr>resource := res, cleaner := cl, name := n\<rparr>]\<rparr>) = Inr w'"
  note e = notify_effect [OF this]
  have "a \<noteq> r" if "a \<in> set (resourcesToReap w)" for a
    using that r assms(3) unfolding registry_ok_def by blast
  moreover have "a \<noteq> r" if "Cleanup a c \<in> set (events w)" for a c
    using that r assms(4) unfolding cleaned_ok_def by blast
  ultimately show ?thesis
    using e assms(2) by (auto simp: discard_ok_def wasPut_update_other)
next
  assume "w' = w\<lparr>heap := heap w @ [\<lparr>resource = res, cleaner = cl, watchers = [],
                                     stale = False, name = n\<rparr>],
                 rc := (rc w)\<lparr>resources := (resources (rc w))(n \<mapsto> length (heap w))\<rparr>\<rparr>"
  with assms(2) show ?thesis
    by (auto simp: discard_ok_def wasPut_append)
qed

lemma discard_ok_reaper_locked:
  assumes "discard_ok w"
  shows "discard_ok (reaper_locked ks w)"
  unfolding discard_ok_def
proof (intro conjI ballI)
  show "\<forall>a c. Cleanup a c \<in> set (events (reaper_locked ks w)) \<longrightarrow>
          wasPut (deref (heap (reaper_locked ks w)) a)"
    using assms by (simp add: discard_ok_def reaper_locked_def)
next
  fix r
  assume "r \<in> set (resourcesToReap (reaper_locked ks w))"
  then have "r \<in> set (resourcesToReap (reap_range ks (w\<lparr>resourcesToReap := []\<rparr>)))"
    by (simp add: reaper_locked_def)
  from reap_range_reaped [OF this]
  show "wasPut (deref (heap (reaper_locked ks w)) r)"
    by (auto simp: reaper_locked_def)
qed

lemma discard_ok_step:
  assumes "step ID c w = Inr w'" and "discard_ok w" and "registry_ok w" and "cleaned_ok w"
  shows "discard_ok w'"
proof (cases c)
  case (CallPut n res cl)
  with assms(1) obtain err where "Put n res cl w = Inr (err, w')"
    by (cases "Put n res cl w") auto
  from discard_ok_Put [OF this assms(2) assms(3) assms(4)] show ?thesis .
next
  case (CallGet n)
  with assms(1) have "Get ID n w = (fst (Get ID n w), w')" by auto
  from Get_cases [OF this] assms(2) show ?thesis
    by (elim disjE exE conjE) (auto simp: discard_ok_def)
next
  case (CallWatcherForResource n)
  with assms(1) obtain ch where "WatcherForResource n w = Inr (ch, w')"
    by (cases "WatcherForResource n w") auto
  from WatcherForResource_cases [OF this] assms(2) show ?thesis
    by (elim disjE exE conjE) (auto simp: discard_ok_def wasPut_append wasPut_update_watchers)
next
  case CallClose
  with assms(1) have "Close w = Inr w'" by simp
  from Close_cases [OF this] assms(2) show ?thesis
    by (elim disjE exE conjE) (simp_all add: discard_ok_def)
next
  case (Receive ch)
  with assms(1) have "receive ch w = Inr w'" by simp
  from receive_effect [OF this] assms(2) show ?thesis
    by (elim conjE) (simp add: discard_ok_def)
next
  case (ReaperTimeout ks)
  with assms(1) have "w' = reaper_locked ks w" by (auto split: if_splits)
  with discard_ok_reaper_locked [OF assms(2), of ks] show ?thesis by simp
next
  case ReaperCleanup
  with assms(1) have "reaper_cleanup w = Inr w'" by (auto split: if_splits)
  from reaper_cleanup_effect [OF this] assms(2) show ?thesis
    by (elim disjE exE conjE) (auto simp: discard_ok_def)
next
  case ReaperShutdown
  with assms have "w' = w\<lparr>reaperExited := True\<rparr>" by (auto split: if_splits)
  with assms(2) show ?thesis by (simp add: discard_ok_def)
qed

subsection \<open>The invariant holds in every state a schedule reaches\<close>

lemma inv_step:
  assumes "step ID c w = Inr w'" and "inv w"
  shows "inv w'"
  using assms registry_ok_step [of ID c w w'] watchers_ok_step [of ID c w w']
    flags_ok_step [of ID c w w'] cleaned_ok_step [of ID c w w']
    discard_ok_step [of ID c w w']
  by (simp add: inv_def)

lemma inv_run:
  assumes "run ID cs w = Inr w'" and "inv w"
  shows "inv w'"
  using assms
proof (induction cs arbitrary: w)
  case Nil
  then show ?case by simp
next
  case (Cons c cs)
  from Cons.prems(1) obtain w1 where s: "step ID c w = Inr w1" and r: "run ID cs w1 = Inr w'"
    by (auto split: sum.splits)
  from Cons.IH [OF r inv_step [OF s Cons.prems(2)]] show ?case .
qed

lemma inv_reachable: "run ID cs (NewWithTimeout t) = Inr w \<Longrightarrow> inv w"
  by (rule inv_run [OF _ inv_New])

section \<open>Single calls\<close>

text \<open>The definitions that evaluate a call on a given state.\<close>

lemmas evals = Put_def lookup_or_create_def wasPut_def deref_def NewWithTimeout_def make_chan_def
  WatcherForResource_def send_def receive_def Get_def Close_def close_chan_def reap_visit_def
  reaper_locked_def range_order_def reaper_cleanup_def call_Cleanup_def duplicate_error_def
  Let_def

lemma ex_put_run:
  "run id [CallPut ''a'' (Some ''id-a'') (Some ''c'')] (NewWithTimeout 0) = Inr ex_put"
  by (simp add: evals ex_put_def)

lemma ex_watch_run:
  "run id [CallWatcherForResource ''b''] (NewWithTimeout 0) = Inr ex_watch"
  by (simp add: evals ex_watch_def)

text \<open>
  C1. In every state and for every name, \<^verbatim>\<open>Get\<close> returns the empty string and
  changes nothing when the name is absent or maps to an entry without a resource;
  otherwise it removes the name from the registry, calls \<^verbatim>\<open>SetCreated()\<close> on the
  entry's resource once (the one call appended to the events), and returns that
  resource's \<^verbatim>\<open>ID()\<close>.
\<close>

theorem Get_claims_or_reports_absence:
  "(resources (rc w) n = None \<or> (\<exists>r. resources (rc w) n = Some r \<and> \<not> wasPut (deref (heap w) r))
      \<longrightarrow> Get ID n w = ('''', w)) \<and>
   (\<forall>r. resources (rc w) n = Some r \<and> wasPut (deref (heap w) r) \<longrightarrow>
      (\<exists>res. r < length (heap w) \<and> resource (heap w ! r) = Some res \<and>
         Get ID n w =
           (ID res, w\<lparr>rc := (rc w)\<lparr>resources := (resources (rc w))(n := None)\<rparr>,
                       events := events w @ [SetCreated res]\<rparr>)))"
  by (auto simp: Get_def wasPut_def deref_def split: option.splits if_splits)

theorem Get_claims_or_reports_absence_witness:
  "Get id ''b'' ex_put = ('''', ex_put) \<and>
   Get id ''b'' ex_watch = ('''', ex_watch) \<and>
   fst (Get id ''a'' ex_put) = ''id-a'' \<and>
   resources (rc (snd (Get id ''a'' ex_put))) ''a'' = None \<and>
   events (snd (Get id ''a'' ex_put)) = [SetCreated ''id-a'']"
  using Get_claims_or_reports_absence [of ex_put "''b''" id]
    Get_claims_or_reports_absence [of ex_watch "''b''" id]
    Get_claims_or_reports_absence [of ex_put "''a''" id]
  by (simp add: ex_put_def ex_watch_def wasPut_def deref_def)

text \<open>
  C2. In every state in which the name maps to an entry that was put, \<^verbatim>\<open>Put\<close>
  returns the duplicate error, whose message contains the name, and the state it returns
  is the state it was given: registry, entry (resource, cleaner, watchers, stale flag),
  channels and events; nothing was called on the arguments.
\<close>

theorem Put_duplicate_rejected:
  assumes "resources (rc w) n = Some r" and "wasPut (deref (heap w) r)"
  shows "Put n res cl w =
     Inr (Some (''failed to add entry '' @ n @ '' to ResourceStore; entry already exists''), w)"
  using assms by (simp add: Put_def lookup_or_create_def duplicate_error_def)

theorem Put_duplicate_rejected_witness:
  "Put ''a'' (Some ''id-2'') (Some ''c2'') ex_put =
     Inr (Some ''failed to add entry a to ResourceStore; entry already exists'', ex_put)"
  using Put_duplicate_rejected [of ex_put "''a''" 0 "Some ''id-2''" "Some ''c2''"]
  by (simp add: ex_put_def wasPut_def deref_def)

text \<open>
  C8. In every state and for every name, \<^verbatim>\<open>WatcherForResource\<close> returns (it does
  not block) a channel that was not allocated before, of capacity one and empty. If the
  name is absent, the registry gets a new entry for it with exactly this watcher, no
  resource and no cleaner; if it is present (and its pointer is not nil), the channel is
  appended to the watchers of its entry and nothing else changes. In a state that a
  schedule reaches the call always returns.
\<close>

theorem WatcherForResource_attaches_fresh_channel:
  "(resources (rc w) n = None \<longrightarrow>
      WatcherForResource n w =
        Inr (length (chans w),
             w\<lparr>chans := chans w @ [\<lparr>chan_cap = 1, chan_len = 0, chan_closed = False\<rparr>],
               heap := heap w @ [\<lparr>resource = None, cleaner = None,
                                    watchers = [length (chans w)], stale = False, name = n\<rparr>],
               rc := (rc w)\<lparr>resources := (resources (rc w))(n \<mapsto> length (heap w))\<rparr>\<rparr>)) \<and>
   (\<forall>r e. resources (rc w) n = Some r \<and> deref (heap w) r = Some e \<longrightarrow>
      WatcherForResource n w =
        Inr (length (chans w),
             w\<lparr>chans := chans w @ [\<lparr>chan_cap = 1, chan_len = 0, chan_closed = False\<rparr>],
               heap := (heap w)[r := e\<lparr>watchers := watchers e @ [length (chans w)]\<rparr>]\<rparr>)) \<and>
   deref (chans w) (length (chans w)) = None \<and>
   (\<forall>cs t. run ID cs (NewWithTimeout t) = Inr w \<longrightarrow>
      (\<exists>w'. WatcherForResource n w = Inr (length (chans w), w')))"
proof -
  have "\<exists>w'. WatcherForResource n w = Inr (length (chans w), w')"
    if "run ID cs (NewWithTimeout t) = Inr w" for cs t
  proof -
    from inv_reachable [OF that]
    have "\<And>r. resources (rc w) n = Some r \<Longrightarrow> r < length (heap w)"
      by (simp add: inv_def registry_ok_def)
    then show ?thesis
      by (cases "resources (rc w) n") (auto simp: WatcherForResource_def deref_def Let_def)
  qed
  moreover have "(resources (rc w) n = None \<longrightarrow>
      WatcherForResource n w =
        Inr (length (chans w),
             w\<lparr>chans := chans w @ [\<lparr>chan_cap = 1, chan_len = 0, chan_closed = False\<rparr>],
               heap := heap w @ [\<lparr>resource = None, cleaner = None,
                                    watchers = [length (chans w)], stale = False, name = n\<rparr>],
               rc := (rc w)\<lparr>resources := (resources (rc w))(n \<mapsto> length (heap w))\<rparr>\<rparr>)) \<and>
   (\<forall>r e. resources (rc w) n = Some r \<and> deref (heap w) r = Some e \<longrightarrow>
      WatcherForResource n w =
        Inr (length (chans w),
             w\<lparr>chans := chans w @ [\<lparr>chan_cap = 1, chan_len = 0, chan_closed = False\<rparr>],
               heap := (heap w)[r := e\<lparr>watchers := watchers e @ [length (chans w)]\<rparr>]\<rparr>)) \<and>
   deref (chans w) (length (chans w)) = None"
    by (auto simp: WatcherForResource_def make_chan_def deref_def Let_def)
  ultimately show ?thesis by blast
qed

theorem WatcherForResource_attaches_fresh_channel_witness:
  "fst (projr (WatcherForResource ''a'' ex_put)) = 0 \<and>
   heap (snd (projr (WatcherForResource ''a'' ex_put))) =
     [\<lparr>resource = Some ''id-a'', cleaner = Some ''c'', watchers = [0], stale = False, name = ''a''\<rparr>] \<and>
   fst (projr (WatcherForResource ''b'' ex_put)) = 0 \<and>
   heap (snd (projr (WatcherForResource ''b'' ex_put))) =
     [\<lparr>resource = Some ''id-a'', cleaner = Some ''c'', watchers = [], stale = False, name = ''a''\<rparr>,
      \<lparr>resource = None, cleaner = None, watchers = [0], stale = False, name = ''b''\<rparr>] \<and>
   resources (rc (snd (projr (WatcherForResource ''b'' ex_put)))) ''b'' = Some 1 \<and>
   chans (snd (projr (WatcherForResource ''b'' ex_put))) =
     [\<lparr>chan_cap = 1, chan_len = 0, chan_closed = False\<rparr>]"
  using WatcherForResource_attaches_fresh_channel [of ex_put "''a''" id]
    WatcherForResource_attaches_fresh_channel [of ex_put "''b''" id]
  by (simp add: ex_put_def deref_def)

lemma Close_reachable:
  assumes "run ID cs (NewWithTimeout t) = Inr w"
  shows "chan_closed (closeChan (rc w)) = closed (rc w)"
  using inv_reachable [OF assms] by (simp add: inv_def flags_ok_def)

text \<open>
  C9. \<^verbatim>\<open>Close\<close> on a store that is not closed closes \<open>closeChan\<close> and sets the
  flag; on a closed store it returns the state unchanged. A second \<^verbatim>\<open>Close\<close>
  after one that returned changes nothing, and \<^verbatim>\<open>Close\<close> twice is
  \<^verbatim>\<open>Close\<close> once. In a state that a schedule reaches \<^verbatim>\<open>Close\<close> always
  returns (closing a closed channel would panic), with the store closed.
\<close>

theorem Close_idempotent:
  "(closed (rc w) \<longrightarrow> Close w = Inr w) \<and>
   (\<not> closed (rc w) \<and> \<not> chan_closed (closeChan (rc w)) \<longrightarrow>
      Close w = Inr (w\<lparr>rc := (rc w)\<lparr>closeChan := (closeChan (rc w))\<lparr>chan_closed := True\<rparr>,
                                    closed := True\<rparr>\<rparr>)) \<and>
   (\<forall>w'. Close w = Inr w' \<longrightarrow> closed (rc w') \<and> Close w' = Inr w') \<and>
   (case Close w of Inl f \<Rightarrow> Inl f | Inr w' \<Rightarrow> Close w') = Close w \<and>
   (\<forall>cs t. run ID cs (NewWithTimeout t) = Inr w \<longrightarrow>
      (\<exists>w'. Close w = Inr w' \<and> closed (rc w') \<and> chan_closed (closeChan (rc w')) \<and>
            Close w' = Inr w'))"
proof -
  have "\<exists>w'. Close w = Inr w' \<and> closed (rc w') \<and> chan_closed (closeChan (rc w')) \<and>
            Close w' = Inr w'"
    if "run ID cs (NewWithTimeout t) = Inr w" for cs t
    using Close_reachable [OF that] by (auto simp: Close_def close_chan_def)
  moreover have "(closed (rc w) \<longrightarrow> Close w = Inr w) \<and>
   (\<not> closed (rc w) \<and> \<not> chan_closed (closeChan (rc w)) \<longrightarrow>
      Close w = Inr (w\<lparr>rc := (rc w)\<lparr>closeChan := (closeChan (rc w))\<lparr>chan_closed := True\<rparr>,
                                    closed := True\<rparr>\<rparr>)) \<and>
   (\<forall>w'. Close w = Inr w' \<longrightarrow> closed (rc w') \<and> Close w' = Inr w') \<and>
   (case Close w of Inl f \<Rightarrow> Inl f | Inr w' \<Rightarrow> Close w') = Close w"
    by (auto simp: Close_def close_chan_def)
  ultimately show ?thesis by blast
qed

theorem Close_idempotent_witness:
  "Close ex_put =
     Inr (ex_put\<lparr>rc := (rc ex_put)\<lparr>closeChan := \<lparr>chan_cap = 1, chan_len = 0, chan_closed = True\<rparr>,
                                     closed := True\<rparr>\<rparr>) \<and>
   Close (ex_put\<lparr>rc := (rc ex_put)\<lparr>closeChan := \<lparr>chan_cap = 1, chan_len = 0, chan_closed = True\<rparr>,
                                     closed := True\<rparr>\<rparr>) =
     Inr (ex_put\<lparr>rc := (rc ex_put)\<lparr>closeChan := \<lparr>chan_cap = 1, chan_len = 0, chan_closed = True\<rparr>,
                                     closed := True\<rparr>\<rparr>)"
  using Close_idempotent [of ex_put id]
    Close_idempotent [of "ex_put\<lparr>rc := (rc ex_put)\<lparr>closeChan := \<lparr>chan_cap = 1, chan_len = 0, chan_closed = True\<rparr>,
                                     closed := True\<rparr>\<rparr>" id]
  by (simp add: ex_put_def make_chan_def)

section \<open>A cycle of the reaper\<close>

lemma reaper_locked_populated:
  assumes "no_alias w" and "range_order ks w"
    and "resources (rc w) n = Some r" and "wasPut (deref (heap w) r)"
  shows "(stale (heap w ! r) \<longrightarrow>
            resources (rc (reaper_locked ks w)) n = None \<and>
            r \<in> set (resourcesToReap (reaper_locked ks w))) \<and>
         (\<not> stale (heap w ! r) \<longrightarrow>
            resources (rc (reaper_locked ks w)) n = Some r \<and>
            stale (heap (reaper_locked ks w) ! r) \<and>
            r \<notin> set (resourcesToReap (reaper_locked ks w)))"
proof -
  let ?w0 = "w\<lparr>resourcesToReap := []\<rparr>"
  from assms(2) assms(3) have "distinct ks" "n \<in> set ks"
    by (auto simp: range_order_def)
  moreover have "no_alias ?w0" using assms(1) by (simp add: no_alias_def)
  moreover have "resources (rc ?w0) n = Some r" "wasPut (deref (heap ?w0) r)"
    "r \<notin> set (resourcesToReap ?w0)"
    using assms(3,4) by simp_all
  ultimately show ?thesis
    using reap_range_populated [of ?w0 ks n r] by (simp add: reaper_locked_def)
qed

lemma reaper_locked_registry:
  "resources (rc (reaper_locked ks w)) n = resources (rc w) n \<or>
   (resources (rc (reaper_locked ks w)) n = None \<and> n \<in> set ks \<and>
    (\<exists>r. resources (rc w) n = Some r \<and> wasPut (deref (heap w) r)))"
  using reap_range_registry [of ks "w\<lparr>resourcesToReap := []\<rparr>" n]
  by (simp add: reaper_locked_def)

lemma reaper_locked_wasPut [simp]:
  "wasPut (deref (heap (reaper_locked ks w)) a) = wasPut (deref (heap w) a)"
  by (simp add: reaper_locked_def)

lemma reaper_locked_all_stale:
  assumes "no_alias w" and "range_order ks w"
    and "resources (rc (reaper_locked ks w)) n = Some r"
    and "wasPut (deref (heap (reaper_locked ks w)) r)"
  shows "stale (heap (reaper_locked ks w) ! r)"
proof -
  from assms(3) reaper_locked_registry [of ks w n]
  have n: "resources (rc w) n = Some r" by auto
  from assms(4) have p: "wasPut (deref (heap w) r)" by simp
  from reaper_locked_populated [OF assms(1,2) n p] assms(3)
  show ?thesis by (cases "stale (heap w ! r)") auto
qed

lemma Put_fresh_entry:
  assumes "flags_ok w" and "Put n (Some res) cl w = Inr (None, w1)"
  shows "\<exists>r. resources (rc w1) n = Some r \<and> wasPut (deref (heap w1) r) \<and>
             \<not> stale (heap w1 ! r)"
  using Put_cases [OF assms(2)]
proof (elim disjE exE conjE)
  fix r assume "None = Some (duplicate_error n)"
  then show ?thesis by simp
next
  fix r
  assume r: "resources (rc w) n = Some r" "r < length (heap w)" "resource (heap w ! r) = None"
  assume "notify (watchers (heap w ! r))
            (w\<lparr>heap := (heap w)[r := (heap w ! r)\<lparr>resource := Some res, cleaner := cl, name := n\<rparr>]\<rparr>) = Inr w1"
  from notify_effect [OF this] r assms(1) show ?thesis
    by (auto simp: flags_ok_def wasPut_def deref_def)
next
  assume "w1 = w\<lparr>heap := heap w @ [\<lparr>resource = Some res, cleaner = cl, watchers = [],
                                     stale = False, name = n\<rparr>],
                 rc := (rc w)\<lparr>resources := (resources (rc w))(n \<mapsto> length (heap w))\<rparr>\<rparr>"
  then show ?thesis by (simp add: wasPut_def deref_def)
qed

text \<open>
  C3. In a state that a schedule reaches, take a cycle of the reaper with any order
  \<open>ks\<close> that \<^verbatim>\<open>range\<close> may choose. An entry that was put is removed from the
  registry (and put on the reaper's list) exactly when its stale flag was already set at
  the start of the cycle; if the flag was not set, the entry stays in the registry, is
  not on the list, has the flag set at the end, and the next cycle removes it. Every
  entry that was put and is still in the registry at the end of the cycle is stale. An
  entry that a successful \<^verbatim>\<open>Put\<close> has just populated is not stale, so it is marked
  in one cycle and deleted in a later one, never both in one.
\<close>

theorem reaper_marks_then_deletes:
  assumes "run ID cs (NewWithTimeout t) = Inr w" and "range_order ks w"
  shows "(\<forall>n r. resources (rc w) n = Some r \<and> wasPut (deref (heap w) r) \<longrightarrow>
           (stale (heap w ! r) \<longrightarrow>
              resources (rc (reaper_locked ks w)) n = None \<and>
              r \<in> set (resourcesToReap (reaper_locked ks w))) \<and>
           (\<not> stale (heap w ! r) \<longrightarrow>
              resources (rc (reaper_locked ks w)) n = Some r \<and>
              wasPut (deref (heap (reaper_locked ks w)) r) \<and>
              stale (heap (reaper_locked ks w) ! r) \<and>
              r \<notin> set (resourcesToReap (reaper_locked ks w)) \<and>
              (\<forall>ks'. range_order ks' (reaper_locked ks w) \<longrightarrow>
                 resources (rc (reaper_locked ks' (reaper_locked ks w))) n = None \<and>
                 r \<in> set (resourcesToReap (reaper_locked ks' (reaper_locked ks w)))))) \<and>
         (\<forall>n r. resources (rc (reaper_locked ks w)) n = Some r \<and>
                wasPut (deref (heap (reaper_locked ks w)) r) \<longrightarrow>
                stale (heap (reaper_locked ks w) ! r)) \<and>
         (\<forall>n res cl w1. Put n (Some res) cl w = Inr (None, w1) \<longrightarrow>
            (\<exists>r. resources (rc w1) n = Some r \<and> wasPut (deref (heap w1) r) \<and>
                 \<not> stale (heap w1 ! r)))"
proof -
  note i = inv_reachable [OF assms(1)]
  from i have na: "no_alias w" and fl: "flags_ok w" and reg: "registry_ok w"
    by (simp_all add: inv_def registry_ok_def)
  have na': "no_alias (reaper_locked ks w)"
    using registry_ok_reaper_locked [OF reg, of ks] by (simp add: registry_ok_def)
  have first: "(stale (heap w ! r) \<longrightarrow>
              resources (rc (reaper_locked ks w)) n = None \<and>
              r \<in> set (resourcesToReap (reaper_locked ks w))) \<and>
           (\<not> stale (heap w ! r) \<longrightarrow>
              resources (rc (reaper_locked ks w)) n = Some r \<and>
              wasPut (deref (heap (reaper_locked ks w)) r) \<and>
              stale (heap (reaper_locked ks w) ! r) \<and>
              r \<notin> set (resourcesToReap (reaper_locked ks w)) \<and>
              (\<forall>ks'. range_order ks' (reaper_locked ks w) \<longrightarrow>
                 resources (rc (reaper_locked ks' (reaper_locked ks w))) n = None \<and>
                 r \<in> set (resourcesToReap (reaper_locked ks' (reaper_locked ks w)))))"
    if n: "resources (rc w) n = Some r" and p: "wasPut (deref (heap w) r)" for n r
  proof -
    note one = reaper_locked_populated [OF na assms(2) n p]
    have "resources (rc (reaper_locked ks' (reaper_locked ks w))) n = None \<and>
          r \<in> set (resourcesToReap (reaper_locked ks' (reaper_locked ks w)))"
      if fresh: "\<not> stale (heap w ! r)" and ro: "range_order ks' (reaper_locked ks w)" for ks'
    proof -
      from one fresh have kept: "resources (rc (reaper_locked ks w)) n = Some r"
        and marked: "stale (heap (reaper_locked ks w) ! r)" by simp_all
      have p': "wasPut (deref (heap (reaper_locked ks w)) r)" using p by simp
      from reaper_locked_populated [OF na' ro kept p'] marked show ?thesis by simp
    qed
    with one p show ?thesis by simp
  qed
  have second: "stale (heap (reaper_locked ks w) ! r)"
    if "resources (rc (reaper_locked ks w)) n = Some r"
      and "wasPut (deref (heap (reaper_locked ks w)) r)" for n r
    using reaper_locked_all_stale [OF na assms(2) that] .
  have third: "\<exists>r. resources (rc w1) n = Some r \<and> wasPut (deref (heap w1) r) \<and>
                 \<not> stale (heap w1 ! r)"
    if "Put n (Some res) cl w = Inr (None, w1)" for n res cl w1
    using Put_fresh_entry [OF fl that] .
  from first second third show ?thesis by blast
qed

theorem reaper_marks_then_deletes_witness:
  "range_order [''a''] ex_put \<and>
   resources (rc (reaper_locked [''a''] ex_put)) ''a'' = Some 0 \<and>
   stale (heap (reaper_locked [''a''] ex_put) ! 0) \<and>
   resourcesToReap (reaper_locked [''a''] ex_put) = [] \<and>
   range_order [''a''] (reaper_locked [''a''] ex_put) \<and>
   resources (rc (reaper_locked [''a''] (reaper_locked [''a''] ex_put))) ''a'' = None \<and>
   resourcesToReap (reaper_locked [''a''] (reaper_locked [''a''] ex_put)) = [0]"
  using reaper_marks_then_deletes [OF ex_put_run, of "[''a'']"]
  by (simp add: ex_put_def evals)

subsection \<open>Cleaners, when every Put with a resource brings one\<close>

lemma put_has_cleaner_Put:
  assumes "put_has_cleaner (CallPut n res cl)"
  shows "res \<noteq> None \<longrightarrow> cl \<noteq> None"
  using assms by (cases res; cases cl) simp_all

lemma cleaner_ok_Put:
  assumes "Put n res cl w = Inr (err, w')" and "res \<noteq> None \<longrightarrow> cl \<noteq> None"
    and "cleaner_ok w"
  shows "cleaner_ok w'"
  using Put_cases [OF assms(1)]
proof (elim disjE exE conjE)
  fix r assume "w' = w" with assms(3) show ?thesis by simp
next
  fix r
  assume r: "r < length (heap w)"
  assume "notify (watchers (heap w ! r))
            (w\<lparr>heap := (heap w)[r := (heap w ! r)\<lparr>resource := res, cleaner := cl, name := n\<rparr>]\<rparr>) = Inr w'"
  from notify_effect [OF this] assms(2) assms(3) r show ?thesis
    by (auto simp: cleaner_ok_def nth_list_update)
next
  assume "w' = w\<lparr>heap := heap w @ [\<lparr>resource = res, cleaner = cl, watchers = [],
                                     stale = False, name = n\<rparr>],
                 rc := (rc w)\<lparr>resources := (resources (rc w))(n \<mapsto> length (heap w))\<rparr>\<rparr>"
  with assms(2) assms(3) show ?thesis
    by (auto simp: cleaner_ok_def nth_append less_Suc_eq)
qed

lemma cleaner_ok_reaper_locked:
  assumes "cleaner_ok w"
  shows "cleaner_ok (reaper_locked ks w)"
proof -
  have "\<And>a. resource (heap (reaper_locked ks w) ! a) = resource (heap w ! a) \<and>
            cleaner (heap (reaper_locked ks w) ! a) = cleaner (heap w ! a)"
    using reap_range_cell [of ks "w\<lparr>resourcesToReap := []\<rparr>"] by (simp add: reaper_locked_def)
  with assms show ?thesis
    by (simp add: cleaner_ok_def) (simp add: reaper_locked_def)
qed

lemma cleaner_ok_step:
  assumes "step ID c w = Inr w'" and "put_has_cleaner c" and "cleaner_ok w"
  shows "cleaner_ok w'"
proof (cases c)
  case (CallPut n res cl)
  with assms(1) obtain err where p: "Put n res cl w = Inr (err, w')"
    by (cases "Put n res cl w") auto
  from assms(2) CallPut have "res \<noteq> None \<longrightarrow> cl \<noteq> None"
    using put_has_cleaner_Put by blast
  from cleaner_ok_Put [OF p this assms(3)] show ?thesis .
next
  case (CallGet n)
  with assms(1) have "Get ID n w = (fst (Get ID n w), w')" by auto
  from Get_cases [OF this] assms(3) show ?thesis
    by (elim disjE exE conjE) (simp_all add: cleaner_ok_def)
next
  case (CallWatcherForResource n)
  with assms(1) obtain ch where "WatcherForResource n w = Inr (ch, w')"
    by (cases "WatcherForResource n w") auto
  from WatcherForResource_cases [OF this] assms(3) show ?thesis
    by (auto simp: cleaner_ok_def nth_append nth_list_update less_Suc_eq split: if_splits)
next
  case CallClose
  with assms(1) have "Close w = Inr w'" by simp
  from Close_cases [OF this] assms(3) show ?thesis
    by (elim disjE exE conjE) (simp_all add: cleaner_ok_def)
next
  case (Receive ch)
  with assms(1) have "receive ch w = Inr w'" by simp
  from receive_effect [OF this] assms(3) show ?thesis
    by (elim conjE) (simp add: cleaner_ok_def)
next
  case (ReaperTimeout ks)
  with assms(1) have "w' = reaper_locked ks w" by (auto split: if_splits)
  with cleaner_ok_reaper_locked [OF assms(3), of ks] show ?thesis by simp
next
  case ReaperCleanup
  with assms(1) have "reaper_cleanup w = Inr w'" by (auto split: if_splits)
  from reaper_cleanup_effect [OF this] assms(3) show ?thesis
    by (elim disjE exE conjE) (simp add: cleaner_ok_def)
next
  case ReaperShutdown
  with assms have "w' = w\<lparr>reaperExited := True\<rparr>" by (auto split: if_splits)
  with assms(3) show ?thesis by (simp add: cleaner_ok_def)
qed

lemma cleaner_ok_run:
  assumes "run ID cs w = Inr w'" and "\<forall>c \<in> set cs. put_has_cleaner c" and "cleaner_ok w"
  shows "cleaner_ok w'"
  using assms
proof (induction cs arbitrary: w)
  case Nil
  then show ?case by simp
next
  case (Cons c cs)
  from Cons.prems(1) obtain w1 where s: "step ID c w = Inr w1" and r: "run ID cs w1 = Inr w'"
    by (auto split: sum.splits)
  from Cons.prems(2) have p: "put_has_cleaner c" and ps: "\<forall>c \<in> set cs. put_has_cleaner c"
    by simp_all
  from Cons.IH [OF r ps cleaner_ok_step [OF s p Cons.prems(3)]] show ?case .
qed

lemma cleaner_ok_reachable:
  assumes "run ID cs (NewWithTimeout t) = Inr w" and "\<forall>c \<in> set cs. put_has_cleaner c"
  shows "cleaner_ok w"
proof -
  have "cleaner_ok (NewWithTimeout t :: ('a, 'b) world)"
    by (simp add: cleaner_ok_def NewWithTimeout_def)
  from cleaner_ok_run [OF assms this] show ?thesis .
qed

subsection \<open>Placeholders and the cleanup loop\<close>

text \<open>
  \<^verbatim>\<open>Put\<close> checks its cleaner no more than its resource. An entry that was put with
  a resource and a nil cleaner is marked by one cycle, removed by the next, and the
  cleanup loop then calls \<^verbatim>\<open>Cleanup()\<close> on its nil cleaner: the nil-cleaner
  dereference is reached, so C4 as it is written fails.
\<close>

theorem reaper_panics_on_nil_cleaner:
  "run id [CallPut ''a'' (Some ''id-a'') None, ReaperTimeout [''a''], ReaperTimeout [''a''],
           ReaperCleanup] (NewWithTimeout 0 :: (string, string) world) = Inl Panic"
  by (simp add: evals)

text \<open>
  C4, amended. In any state and for any cycle of the reaper, an entry of the registry
  without a resource is skipped: it stays in the registry, its \<^verbatim>\<open>Resource\<close>
  (stale flag included) is unchanged and it is not on the reaper's list; whatever the
  cycle puts on the list was put. In a state that a schedule reaches, everything on the
  reaper's list and everything ever cleaned up was put, a step of the cleanup loop calls
  \<^verbatim>\<open>Cleanup()\<close> on the cleaner of an entry that was put, and if it panics on a
  nil cleaner, that is the nil cleaner of an entry that was put with one, never a
  placeholder's. When every entry with a resource has a cleaner the step does not panic,
  and that is so after every schedule in which every \<^verbatim>\<open>Put\<close> that was given a
  resource was given a cleaner that is not nil: there the nil-cleaner dereference is
  unreachable.
\<close>

theorem reaper_skips_placeholders:
  "(\<forall>n r. resources (rc w) n = Some r \<and> \<not> wasPut (deref (heap w) r) \<longrightarrow>
       resources (rc (reaper_locked ks w)) n = Some r \<and>
       deref (heap (reaper_locked ks w)) r = deref (heap w) r \<and>
       r \<notin> set (resourcesToReap (reaper_locked ks w))) \<and>
   (\<forall>r \<in> set (resourcesToReap (reaper_locked ks w)).
       wasPut (deref (heap (reaper_locked ks w)) r)) \<and>
   (\<forall>cs t. run ID cs (NewWithTimeout t) = Inr w \<longrightarrow>
       (\<forall>r \<in> set (resourcesToReap w). wasPut (deref (heap w) r)) \<and>
       (\<forall>a c. Cleanup a c \<in> set (events w) \<longrightarrow> wasPut (deref (heap w) a)) \<and>
       (\<forall>w'. step ID ReaperCleanup w = Inr w' \<longrightarrow>
          (\<exists>r c. wasPut (deref (heap w) r) \<and> cleaner (heap w ! r) = Some c \<and>
             events w' = events w @
               [LogInfo (''cleaning up stale resource '' @ name (heap w ! r)), Cleanup r c])) \<and>
       (step ID ReaperCleanup w = Inl Panic \<longrightarrow>
          (\<exists>r \<in> set (resourcesToReap w). wasPut (deref (heap w) r) \<and> cleaner (heap w ! r) = None)) \<and>
       ((\<forall>a < length (heap w). resource (heap w ! a) \<noteq> None \<longrightarrow> cleaner (heap w ! a) \<noteq> None)
          \<longrightarrow> step ID ReaperCleanup w \<noteq> Inl Panic) \<and>
       ((\<forall>c \<in> set cs. put_has_cleaner c) \<longrightarrow> step ID ReaperCleanup w \<noteq> Inl Panic))"
proof -
  have skip: "resources (rc (reaper_locked ks w)) n = Some r \<and>
       deref (heap (reaper_locked ks w)) r = deref (heap w) r \<and>
       r \<notin> set (resourcesToReap (reaper_locked ks w))"
    if "resources (rc w) n = Some r" and "\<not> wasPut (deref (heap w) r)" for n r
    using reap_range_placeholder [of "w\<lparr>resourcesToReap := []\<rparr>" n r ks] that
    by (simp add: reaper_locked_def)
  have listed: "wasPut (deref (heap (reaper_locked ks w)) r)"
    if "r \<in> set (resourcesToReap (reaper_locked ks w))" for r
    using reap_range_reaped [of r ks "w\<lparr>resourcesToReap := []\<rparr>"] that
    by (auto simp: reaper_locked_def)
  have reach: "(\<forall>r \<in> set (resourcesToReap w). wasPut (deref (heap w) r)) \<and>
       (\<forall>a c. Cleanup a c \<in> set (events w) \<longrightarrow> wasPut (deref (heap w) a)) \<and>
       (\<forall>w'. step ID ReaperCleanup w = Inr w' \<longrightarrow>
          (\<exists>r c. wasPut (deref (heap w) r) \<and> cleaner (heap w ! r) = Some c \<and>
             events w' = events w @
               [LogInfo (''cleaning up stale resource '' @ name (heap w ! r)), Cleanup r c])) \<and>
       (step ID ReaperCleanup w = Inl Panic \<longrightarrow>
          (\<exists>r \<in> set (resourcesToReap w). wasPut (deref (heap w) r) \<and> cleaner (heap w ! r) = None)) \<and>
       ((\<forall>a < length (heap w). resource (heap w ! a) \<noteq> None \<longrightarrow> cleaner (heap w ! a) \<noteq> None)
          \<longrightarrow> step ID ReaperCleanup w \<noteq> Inl Panic) \<and>
       ((\<forall>c \<in> set cs. put_has_cleaner c) \<longrightarrow> step ID ReaperCleanup w \<noteq> Inl Panic)"
    if reached: "run ID cs (NewWithTimeout t) = Inr w" for cs t
  proof -
    from inv_reachable [OF reached] have d: "discard_ok w" by (simp add: inv_def)
    then have l: "\<And>r. r \<in> set (resourcesToReap w) \<Longrightarrow> wasPut (deref (heap w) r)"
      and c: "\<And>a c. Cleanup a c \<in> set (events w) \<Longrightarrow> wasPut (deref (heap w) a)"
      by (auto simp: discard_ok_def)
    have ok: "\<exists>r c. wasPut (deref (heap w) r) \<and> cleaner (heap w ! r) = Some c \<and>
             events w' = events w @
               [LogInfo (''cleaning up stale resource '' @ name (heap w ! r)), Cleanup r c]"
      if "step ID ReaperCleanup w = Inr w'" for w'
    proof -
      from that have "reaper_cleanup w = Inr w'" by (auto split: if_splits)
      from reaper_cleanup_effect [OF this] obtain r rs c where
        "resourcesToReap w = r # rs" "cleaner (heap w ! r) = Some c"
        "events w' = events w @
           [LogInfo (''cleaning up stale resource '' @ name (heap w ! r)), Cleanup r c]"
        by auto
      with l [of r] show ?thesis by auto
    qed
    have panic: "\<exists>r \<in> set (resourcesToReap w). wasPut (deref (heap w) r) \<and> cleaner (heap w ! r) = None"
      if "step ID ReaperCleanup w = Inl Panic"
    proof -
      from that obtain r rs where rr: "resourcesToReap w = r # rs"
        by (cases "resourcesToReap w") (auto simp: reaper_cleanup_def split: if_splits)
      with l [of r] have p: "wasPut (deref (heap w) r)" by simp
      with that rr have "cleaner (heap w ! r) = None"
        by (auto simp: reaper_cleanup_def call_Cleanup_def wasPut_def deref_def
            split: if_splits option.splits)
      with p rr show ?thesis by auto
    qed
    have state: "step ID ReaperCleanup w \<noteq> Inl Panic"
      if "\<forall>a < length (heap w). resource (heap w ! a) \<noteq> None \<longrightarrow> cleaner (heap w ! a) \<noteq> None"
    proof
      assume "step ID ReaperCleanup w = Inl Panic"
      from panic [OF this] that show False
        by (auto simp: wasPut_def deref_def split: if_splits)
    qed
    have "step ID ReaperCleanup w \<noteq> Inl Panic" if "\<forall>c \<in> set cs. put_has_cleaner c"
      using state cleaner_ok_reachable [OF reached that] by (simp add: cleaner_ok_def)
    with l c ok panic state show ?thesis by blast
  qed
  from skip listed reach show ?thesis by blast
qed

theorem reaper_skips_placeholders_witness:
  "resources (rc (reaper_locked [''b''] ex_watch)) ''b'' = Some 0 \<and>
   heap (reaper_locked [''b''] ex_watch) = heap ex_watch \<and>
   resourcesToReap (reaper_locked [''b''] ex_watch) = [] \<and>
   resourcesToReap (reaper_locked [''b''] (reaper_locked [''b''] ex_watch)) = [] \<and>
   step id ReaperCleanup ex_watch = Inl Disabled \<and>
   run id [CallWatcherForResource ''b'', CallPut ''a'' (Some ''id-a'') (Some ''c''),
           ReaperTimeout [''b'', ''a''], ReaperTimeout [''a'', ''b'']] (NewWithTimeout 0) =
     Inr \<lparr>rc = \<lparr>resources = [''b'' \<mapsto> 0], timeout = 0, closeChan = make_chan 1, closed = False\<rparr>,
          heap = [\<lparr>resource = None, cleaner = None, watchers = [0], stale = False, name = ''b''\<rparr>,
                  \<lparr>resource = Some ''id-a'', cleaner = Some ''c'', watchers = [], stale = True,
                    name = ''a''\<rparr>],
          chans = [make_chan 1], resourcesToReap = [1], reaperExited = False, events = []\<rparr> \<and>
   step id ReaperCleanup
     \<lparr>rc = \<lparr>resources = [''b'' \<mapsto> 0], timeout = 0, closeChan = make_chan 1, closed = False\<rparr>,
      heap = [\<lparr>resource = None, cleaner = None, watchers = [0], stale = False, name = ''b''\<rparr>,
              \<lparr>resource = Some ''id-a'', cleaner = Some ''c'', watchers = [], stale = True,
                name = ''a''\<rparr>],
      chans = [make_chan 1], resourcesToReap = [1], reaperExited = False, events = []\<rparr> =
     Inr \<lparr>rc = \<lparr>resources = [''b'' \<mapsto> 0], timeout = 0, closeChan = make_chan 1, closed = False\<rparr>,
          heap = [\<lparr>resource = None, cleaner = None, watchers = [0], stale = False, name = ''b''\<rparr>,
                  \<lparr>resource = Some ''id-a'', cleaner = Some ''c'', watchers = [], stale = True,
                    name = ''a''\<rparr>],
          chans = [make_chan 1], resourcesToReap = [], reaperExited = False,
          events = [LogInfo ''cleaning up stale resource a'', Cleanup 1 ''c'']\<rparr>"
proof -
  let ?cs = "[CallWatcherForResource ''b'', CallPut ''a'' (Some ''id-a'') (Some ''c''),
           ReaperTimeout [''b'', ''a''], ReaperTimeout [''a'', ''b'']] :: (string, string) call list"
  let ?w = "\<lparr>rc = \<lparr>resources = [''b'' \<mapsto> 0], timeout = 0, closeChan = make_chan 1, closed = False\<rparr>,
          heap = [\<lparr>resource = None, cleaner = None, watchers = [0], stale = False, name = ''b''\<rparr>,
                  \<lparr>resource = Some ''id-a'', cleaner = Some ''c'', watchers = [], stale = True,
                    name = ''a''\<rparr>],
          chans = [make_chan 1], resourcesToReap = [1], reaperExited = False,
          events = []\<rparr> :: (string, string) world"
  have r: "run id ?cs (NewWithTimeout 0) = Inr ?w"
    by (auto simp: evals)
  have p: "\<forall>c \<in> set ?cs. put_has_cleaner c" by simp
  from reaper_skips_placeholders [of ex_watch "[''b'']" id]
    reaper_skips_placeholders [of "reaper_locked [''b''] ex_watch" "[''b'']" id]
    reaper_skips_placeholders [of ?w "[''b'']" id] r p
  show ?thesis
    by (simp add: ex_watch_def evals)
qed

section \<open>Schedules\<close>

subsection \<open>An entry that has left the registry\<close>

lemma released_reaper_locked:
  assumes "released a w"
  shows "released a (reaper_locked ks w)"
proof -
  from assms have a: "a < length (heap w)" "\<And>n. resources (rc w) n \<noteq> Some a"
    "\<And>c. Cleanup a c \<notin> set (events w)"
    by (auto simp: released_def)
  have "resources (rc (reaper_locked ks w)) n \<noteq> Some a" for n
    using reap_range_registry [of ks "w\<lparr>resourcesToReap := []\<rparr>" n] a(2) [of n]
    by (auto simp: reaper_locked_def)
  moreover have "a \<notin> set (resourcesToReap (reaper_locked ks w))"
  proof
    assume "a \<in> set (resourcesToReap (reaper_locked ks w))"
    then have "a \<in> set (resourcesToReap (reap_range ks (w\<lparr>resourcesToReap := []\<rparr>)))"
      by (simp add: reaper_locked_def)
    from reap_range_reaped [OF this] a(2) show False by auto
  qed
  ultimately show ?thesis
    using a(1) a(3) by (simp add: released_def) (simp add: reaper_locked_def)
qed

lemma released_step:
  assumes "step ID c w = Inr w'" and "released a w"
  shows "released a w'"
proof (cases c)
  case (CallPut n res cl)
  with assms(1) obtain err where "Put n res cl w = Inr (err, w')"
    by (cases "Put n res cl w") auto
  from Put_cases [OF this] show ?thesis
  proof (elim disjE exE conjE)
    fix r assume "w' = w" with assms(2) show ?thesis by simp
  next
    fix r
    assume "notify (watchers (heap w ! r))
            (w\<lparr>heap := (heap w)[r := (heap w ! r)\<lparr>resource := res, cleaner := cl, name := n\<rparr>]\<rparr>) = Inr w'"
    from notify_effect [OF this] assms(2) show ?thesis
      by (auto simp: released_def)
  next
    assume "w' = w\<lparr>heap := heap w @ [\<lparr>resource = res, cleaner = cl, watchers = [],
                                     stale = False, name = n\<rparr>],
                 rc := (rc w)\<lparr>resources := (resources (rc w))(n \<mapsto> length (heap w))\<rparr>\<rparr>"
    with assms(2) show ?thesis
      by (auto simp: released_def)
  qed
next
  case (CallGet n)
  with assms(1) have "Get ID n w = (fst (Get ID n w), w')" by auto
  from Get_cases [OF this] assms(2) show ?thesis
    by (auto simp: released_def split: if_splits)
next
  case (CallWatcherForResource n)
  with assms(1) obtain ch where "WatcherForResource n w = Inr (ch, w')"
    by (cases "WatcherForResource n w") auto
  from WatcherForResource_cases [OF this] assms(2) show ?thesis
    by (auto simp: released_def split: if_splits)
next
  case CallClose
  with assms(1) have "Close w = Inr w'" by simp
  from Close_cases [OF this] assms(2) show ?thesis
    by (elim disjE exE conjE) (simp_all add: released_def)
next
  case (Receive ch)
  with assms(1) have "receive ch w = Inr w'" by simp
  from receive_effect [OF this] assms(2) show ?thesis
    by (elim conjE) (simp add: released_def)
next
  case (ReaperTimeout ks)
  with assms(1) have "w' = reaper_locked ks w" by (auto split: if_splits)
  with released_reaper_locked [OF assms(2), of ks] show ?thesis by simp
next
  case ReaperCleanup
  with assms(1) have "reaper_cleanup w = Inr w'" by (auto split: if_splits)
  from reaper_cleanup_effect [OF this] assms(2) show ?thesis
    by (auto simp: released_def)
next
  case ReaperShutdown
  with assms have "w' = w\<lparr>reaperExited := True\<rparr>" by (auto split: if_splits)
  with assms(2) show ?thesis by (simp add: released_def)
qed

lemma released_run:
  assumes "run ID cs w = Inr w'" and "released a w"
  shows "released a w'"
  using assms
proof (induction cs arbitrary: w)
  case Nil
  then show ?case by simp
next
  case (Cons c cs)
  from Cons.prems(1) obtain w1 where s: "step ID c w = Inr w1" and r: "run ID cs w1 = Inr w'"
    by (auto split: sum.splits)
  from Cons.IH [OF r released_step [OF s Cons.prems(2)]] show ?case .
qed

lemma Get_releases:
  assumes "inv w" and "Get ID n w = (i, w')" and "i \<noteq> ''''"
  shows "\<exists>r. resources (rc w) n = Some r \<and> wasPut (deref (heap w) r) \<and>
             resources (rc w') n = None \<and> released r w'"
proof -
  from Get_cases [OF assms(2)] assms(3) obtain r res where
    r: "resources (rc w) n = Some r" "r < length (heap w)" "resource (heap w ! r) = Some res"
    and w': "w' = w\<lparr>rc := (rc w)\<lparr>resources := (resources (rc w))(n := None)\<rparr>,
                     events := events w @ [SetCreated res]\<rparr>"
    by auto
  from assms(1) have reg: "registry_ok w" and cl: "cleaned_ok w" by (simp_all add: inv_def)
  have other: "resources (rc w) m \<noteq> Some r" if "m \<noteq> n" for m
    using reg r(1) that unfolding registry_ok_def no_alias_def by blast
  have nl: "r \<notin> set (resourcesToReap w)"
    using reg r(1) unfolding registry_ok_def by blast
  have nc: "Cleanup r c \<notin> set (events w)" for c
    using cl r(1) unfolding cleaned_ok_def by blast
  have "released r w'"
    using r(2) other nl nc by (simp add: released_def w')
  with r show ?thesis by (auto simp: w' wasPut_def deref_def)
qed

text \<open>
  C7. Take a state that a schedule reaches and a \<^verbatim>\<open>Get\<close> there that returns a
  non-empty ID. It claimed the entry that the name pointed to, that entry was put, and
  the name is gone from the registry when \<^verbatim>\<open>Get\<close> returns. Then, and after
  every schedule that continues from there, the \<^verbatim>\<open>Cleanup()\<close> of that entry (the
  call \<^verbatim>\<open>r.cleaner.Cleanup()\<close> for this \<^verbatim>\<open>Resource\<close> struct \<open>r\<close>) appears
  nowhere in the events, no name of the registry points to the entry, and it is not on
  the reaper's list.
\<close>

theorem Get_cancels_cleanup:
  assumes "run ID cs (NewWithTimeout t) = Inr w" and "Get ID n w = (i, w')" and "i \<noteq> ''''"
  shows "\<exists>r. resources (rc w) n = Some r \<and> wasPut (deref (heap w) r) \<and>
             resources (rc w') n = None \<and>
             (\<forall>cs' w''. run ID cs' w' = Inr w'' \<longrightarrow>
                (\<forall>c. Cleanup r c \<notin> set (events w'')) \<and>
                (\<forall>m. resources (rc w'') m \<noteq> Some r) \<and>
                r \<notin> set (resourcesToReap w''))"
proof -
  from Get_releases [OF inv_reachable [OF assms(1)] assms(2) assms(3)] obtain r where
    r: "resources (rc w) n = Some r" "wasPut (deref (heap w) r)" "resources (rc w') n = None"
    and rel: "released r w'" by blast
  have "(\<forall>c. Cleanup r c \<notin> set (events w'')) \<and>
        (\<forall>m. resources (rc w'') m \<noteq> Some r) \<and> r \<notin> set (resourcesToReap w'')"
    if "run ID cs' w' = Inr w''" for cs' w''
    using released_run [OF that rel] by (simp add: released_def)
  with r show ?thesis by blast
qed

theorem Get_cancels_cleanup_witness:
  "run id [CallPut ''a'' (Some ''id-a'') (Some ''c''), ReaperTimeout [''a'']] (NewWithTimeout 0) =
     Inr (reaper_locked [''a''] ex_put) \<and>
   fst (Get id ''a'' (reaper_locked [''a''] ex_put)) = ''id-a'' \<and>
   events (projr (run id [ReaperTimeout [], CallPut ''a'' (Some ''id-2'') (Some ''c2''),
                     ReaperTimeout [''a''], ReaperTimeout [''a''], ReaperCleanup]
              (snd (Get id ''a'' (reaper_locked [''a''] ex_put))))) =
     [SetCreated ''id-a'', LogInfo ''cleaning up stale resource a'', Cleanup 1 ''c2'']"
  using Get_cancels_cleanup [of id "[CallPut ''a'' (Some ''id-a'') (Some ''c''), ReaperTimeout [''a'']]"
      0 "reaper_locked [''a''] ex_put" "''a''" "''id-a''"
      "snd (Get id ''a'' (reaper_locked [''a''] ex_put))"]
  by (simp add: ex_put_def evals)

subsection \<open>A watcher attached to an entry that already has its resource\<close>

lemma late_watcher_Put:
  assumes "Put n res cl w = Inr (err, w')" and "watchers_ok w" and "late_watcher ch a w"
  shows "late_watcher ch a w'"
  using Put_cases [OF assms(1)]
proof (elim disjE exE conjE)
  fix r assume "w' = w" with assms(3) show ?thesis by simp
next
  fix r
  assume r: "r < length (heap w)" "resource (heap w ! r) = None"
  assume "notify (watchers (heap w ! r))
            (w\<lparr>heap := (heap w)[r := (heap w ! r)\<lparr>resource := res, cleaner := cl, name := n\<rparr>]\<rparr>) = Inr w'"
  note e = notify_effect [OF this]
  from assms(3) r have ar: "a \<noteq> r" by (auto simp: late_watcher_def)
  have "ch \<notin> set (watchers (heap w ! r))"
    using assms(2) assms(3) r(1) ar unfolding watchers_ok_def late_watcher_def by blast
  with e assms(3) ar show ?thesis
    by (auto simp: late_watcher_def)
next
  assume "w' = w\<lparr>heap := heap w @ [\<lparr>resource = res, cleaner = cl, watchers = [],
                                     stale = False, name = n\<rparr>],
                 rc := (rc w)\<lparr>resources := (resources (rc w))(n \<mapsto> length (heap w))\<rparr>\<rparr>"
  with assms(3) show ?thesis
    by (auto simp: late_watcher_def nth_append)
qed

lemma late_watcher_reaper_locked:
  assumes "late_watcher ch a w"
  shows "late_watcher ch a (reaper_locked ks w)"
  using assms reap_range_cell [of ks "w\<lparr>resourcesToReap := []\<rparr>" a]
  by (simp add: late_watcher_def reaper_locked_def)

lemma late_watcher_step:
  assumes "step ID c w = Inr w'" and "watchers_ok w" and "late_watcher ch a w"
  shows "late_watcher ch a w'"
proof (cases c)
  case (CallPut n res cl)
  with assms(1) obtain err where "Put n res cl w = Inr (err, w')"
    by (cases "Put n res cl w") auto
  from late_watcher_Put [OF this assms(2) assms(3)] show ?thesis .
next
  case (CallGet n)
  with assms(1) have "Get ID n w = (fst (Get ID n w), w')" by auto
  from Get_cases [OF this] assms(3) show ?thesis
    by (auto simp: late_watcher_def)
next
  case (CallWatcherForResource n)
  with assms(1) obtain ch' where "WatcherForResource n w = Inr (ch', w')"
    by (cases "WatcherForResource n w") auto
  from WatcherForResource_cases [OF this] assms(3) show ?thesis
    by (auto simp: late_watcher_def nth_append nth_list_update)
next
  case CallClose
  with assms(1) have "Close w = Inr w'" by simp
  from Close_cases [OF this] assms(3) show ?thesis
    by (elim disjE exE conjE) (simp_all add: late_watcher_def)
next
  case (Receive ch')
  with assms(1) have "receive ch' w = Inr w'" by simp
  from receive_effect [OF this] assms(3) show ?thesis
    by (elim conjE) (simp add: late_watcher_def)
next
  case (ReaperTimeout ks)
  with assms(1) have "w' = reaper_locked ks w" by (auto split: if_splits)
  with late_watcher_reaper_locked [OF assms(3), of ks] show ?thesis by simp
next
  case ReaperCleanup
  with assms(1) have "reaper_cleanup w = Inr w'" by (auto split: if_splits)
  from reaper_cleanup_effect [OF this] assms(3) show ?thesis
    by (auto simp: late_watcher_def)
next
  case ReaperShutdown
  with assms have "w' = w\<lparr>reaperExited := True\<rparr>" by (auto split: if_splits)
  with assms(3) show ?thesis by (simp add: late_watcher_def)
qed

lemma late_watcher_run:
  assumes "run ID cs w = Inr w'" and "inv w" and "late_watcher ch a w"
  shows "late_watcher ch a w'"
  using assms
proof (induction cs arbitrary: w)
  case Nil
  then show ?case by simp
next
  case (Cons c cs)
  from Cons.prems(1) obtain w1 where s: "step ID c w = Inr w1" and r: "run ID cs w1 = Inr w'"
    by (auto split: sum.splits)
  from Cons.prems(2) have "watchers_ok w" by (simp add: inv_def)
  from Cons.IH [OF r inv_step [OF s Cons.prems(2)] late_watcher_step [OF s this Cons.prems(3)]]
  show ?case .
qed

lemma Put_on_populated:
  assumes "resources (rc w) n = Some r" and "r < length (heap w)"
    and "resource (heap w ! r) \<noteq> None"
  shows "Put n res cl w = Inr (Some (duplicate_error n), w)"
  using assms by (simp add: Put_def lookup_or_create_def wasPut_def deref_def)

text \<open>
  C10. Take a state that a schedule reaches in which the name maps to an entry that was
  put, and call \<^verbatim>\<open>WatcherForResource\<close> for it. The call returns a newly allocated
  channel and appends it to the watchers of that entry. Nothing has been sent on the
  channel, and after every schedule that continues from there nothing has been sent on
  it either; in each of those later states a \<^verbatim>\<open>Put\<close> for a name that still maps
  to the entry returns the duplicate error and leaves the state as it is, so it sends
  nothing.
\<close>

theorem late_watcher_never_notified:
  assumes "run ID cs (NewWithTimeout t) = Inr w"
    and "resources (rc w) n = Some r" and "wasPut (deref (heap w) r)"
    and "WatcherForResource n w = Inr (ch, w1)"
  shows "ch = length (chans w) \<and>
         watchers (heap w1 ! r) = watchers (heap w ! r) @ [ch] \<and>
         resources (rc w1) n = Some r \<and>
         (\<forall>cs' w2. run ID cs' w1 = Inr w2 \<longrightarrow>
            Sent ch \<notin> set (events w2) \<and>
            ch \<in> set (watchers (heap w2 ! r)) \<and>
            (\<forall>m res cl. resources (rc w2) m = Some r \<longrightarrow>
               Put m res cl w2 = Inr (Some (duplicate_error m), w2)))"
proof -
  note i = inv_reachable [OF assms(1)]
  from assms(3) have r: "r < length (heap w)" "resource (heap w ! r) \<noteq> None"
    by (auto simp: wasPut_def deref_def split: if_splits)
  from WatcherForResource_cases [OF assms(4)] assms(2) have ch: "ch = length (chans w)"
    and w1: "w1 = w\<lparr>chans := chans w @ [make_chan 1],
                    heap := (heap w)[r := (heap w ! r)\<lparr>watchers := watchers (heap w ! r) @ [ch]\<rparr>]\<rparr>"
    by auto
  from i have "Sent ch \<notin> set (events w)"
    unfolding inv_def watchers_ok_def ch by blast
  with r have lw: "late_watcher ch r w1"
    by (simp add: late_watcher_def w1)
  have i1: "inv w1"
    using inv_step [of ID "CallWatcherForResource n" w w1] assms(4) i by simp
  have "Sent ch \<notin> set (events w2) \<and> ch \<in> set (watchers (heap w2 ! r)) \<and>
        (\<forall>m res cl. resources (rc w2) m = Some r \<longrightarrow>
           Put m res cl w2 = Inr (Some (duplicate_error m), w2))"
    if "run ID cs' w1 = Inr w2" for cs' w2
    using late_watcher_run [OF that i1 lw] Put_on_populated [of w2 _ r]
    by (simp add: late_watcher_def)
  with ch r assms(2) show ?thesis by (simp add: w1)
qed

theorem late_watcher_never_notified_witness:
  "fst (projr (WatcherForResource ''a'' ex_put)) = 0 \<and>
   watchers (heap (snd (projr (WatcherForResource ''a'' ex_put))) ! 0) = [0] \<and>
   run id [CallPut ''a'' (Some ''id-2'') (Some ''c2''), ReaperTimeout [''a''], CallGet ''a'',
           CallPut ''a'' (Some ''id-3'') (Some ''c3'')]
     (snd (projr (WatcherForResource ''a'' ex_put))) =
   Inr \<lparr>rc = \<lparr>resources = [''a'' \<mapsto> 1], timeout = 0, closeChan = make_chan 1, closed = False\<rparr>,
        heap = [\<lparr>resource = Some ''id-a'', cleaner = Some ''c'', watchers = [0], stale = True,
                  name = ''a''\<rparr>,
                \<lparr>resource = Some ''id-3'', cleaner = Some ''c3'', watchers = [], stale = False,
                  name = ''a''\<rparr>],
        chans = [make_chan 1], resourcesToReap = [], reaperExited = False,
        events = [SetCreated ''id-a'']\<rparr>"
  using late_watcher_never_notified [OF ex_put_run, of "''a''" 0 0
      "snd (projr (WatcherForResource ''a'' ex_put))"]
  by (simp add: ex_put_def evals)

subsection \<open>Sends, when every Put brings a resource\<close>

lemma count_list_Sent:
  "count_list (map Sent chs) (Sent ch :: ('r, 'c) event) = count_list chs ch"
  by (induction chs) simp_all

lemma distinct_count_list_le: "distinct xs \<Longrightarrow> count_list xs x \<le> 1"
  by (induction xs) auto

lemma notify_succeeds:
  assumes "distinct chs"
    and "\<forall>ch \<in> set chs. ch < length (chans w) \<and> \<not> chan_closed (chans w ! ch) \<and>
           chan_len (chans w ! ch) < chan_cap (chans w ! ch)"
  shows "\<exists>w'. notify chs w = Inr w'"
  using assms
proof (induction chs arbitrary: w)
  case Nil
  show ?case by simp
next
  case (Cons ch chs)
  let ?w1 = "w\<lparr>chans := (chans w)[ch := (chans w ! ch)\<lparr>chan_len := chan_len (chans w ! ch) + 1\<rparr>],
               events := events w @ [Sent ch]\<rparr>"
  from Cons.prems have s: "send ch w = Inr ?w1"
    by (simp add: send_def deref_def)
  from Cons.prems have "distinct chs" and "ch \<notin> set chs" by simp_all
  moreover from Cons.prems \<open>ch \<notin> set chs\<close>
  have "\<forall>c \<in> set chs. c < length (chans ?w1) \<and> \<not> chan_closed (chans ?w1 ! c) \<and>
           chan_len (chans ?w1 ! c) < chan_cap (chans ?w1 ! c)"
    by (auto simp: nth_list_update)
  ultimately obtain w' where "notify chs ?w1 = Inr w'"
    using Cons.IH [of ?w1] by blast
  with s show ?case by simp
qed

lemma notify_fills:
  assumes "notify chs w = Inr w'" and "distinct chs"
  shows "\<forall>ch \<in> set chs. chan_len (chans w' ! ch) = chan_len (chans w ! ch) + 1"
  using assms
proof (induction chs arbitrary: w)
  case Nil
  show ?case by simp
next
  case (Cons ch chs)
  from Cons.prems(1) obtain w1 where s: "send ch w = Inr w1" and n: "notify chs w1 = Inr w'"
    by (auto split: sum.splits)
  from Cons.prems(2) have d: "distinct chs" and nin: "ch \<notin> set chs" by simp_all
  note e = send_effect [OF s]
  from notify_effect [OF n] nin have "chans w' ! ch = chans w1 ! ch" by simp
  with e have "chan_len (chans w' ! ch) = chan_len (chans w ! ch) + 1" by simp
  moreover have "chan_len (chans w' ! c) = chan_len (chans w ! c) + 1" if "c \<in> set chs" for c
  proof -
    from that nin have "c \<noteq> ch" by auto
    with e have "chans w1 ! c = chans w ! c" by simp
    with Cons.IH [OF n d] that show ?thesis by simp
  qed
  ultimately show ?case by simp
qed

lemma unsent_ok_Put:
  assumes "Put n (Some x) cl w = Inr (err, w')" and "watchers_ok w" and "unsent_ok w"
  shows "unsent_ok w'"
  using Put_cases [OF assms(1)]
proof (elim disjE exE conjE)
  fix r assume "w' = w" with assms(3) show ?thesis by simp
next
  fix r
  assume r: "r < length (heap w)" "resource (heap w ! r) = None"
  assume "notify (watchers (heap w ! r))
            (w\<lparr>heap := (heap w)[r := (heap w ! r)\<lparr>resource := Some x, cleaner := cl, name := n\<rparr>]\<rparr>) = Inr w'"
  note e = notify_effect [OF this]
  let ?ws = "watchers (heap w ! r)"
  from e have h: "heap w' = (heap w)[r := (heap w ! r)\<lparr>resource := Some x, cleaner := cl, name := n\<rparr>]"
    and ev: "events w' = events w @ map Sent ?ws"
    and fr: "\<And>i. i \<notin> set ?ws \<Longrightarrow> chans w' ! i = chans w ! i"
    by simp_all
  from assms(2) r(1) have dw: "distinct ?ws" by (simp add: watchers_ok_def)
  from assms(3) r have un: "\<And>ch. ch \<in> set ?ws \<Longrightarrow> Sent ch \<notin> set (events w)"
    by (simp add: unsent_ok_def)
  have cells: "Sent ch \<notin> set (events w') \<and> chan_len (chans w' ! ch) = 0"
    if a: "a < length (heap w')" "resource (heap w' ! a) = None"
      and ch: "ch \<in> set (watchers (heap w' ! a))" for a ch
  proof -
    from a h r(1) have ar: "a \<noteq> r" by auto
    with a ch h have a': "a < length (heap w)" "resource (heap w ! a) = None"
      "ch \<in> set (watchers (heap w ! a))" by simp_all
    have "ch \<notin> set ?ws"
      using assms(2) a'(1) a'(3) r(1) ar unfolding watchers_ok_def by blast
    moreover from assms(3) a' have "Sent ch \<notin> set (events w)" "chan_len (chans w ! ch) = 0"
      by (simp_all add: unsent_ok_def)
    ultimately show ?thesis by (auto simp: ev fr)
  qed
  have counts: "count_list (events w') (Sent ch) \<le> 1" for ch
  proof (cases "ch \<in> set ?ws")
    case True
    from un [OF True] have "count_list (events w) (Sent ch) = 0" by simp
    with distinct_count_list_le [OF dw, of ch] show ?thesis
      by (simp add: ev count_list_Sent)
  next
    case False
    with assms(3) show ?thesis
      by (simp add: ev count_list_Sent unsent_ok_def)
  qed
  from cells counts show ?thesis
    unfolding unsent_ok_def by blast
next
  assume "w' = w\<lparr>heap := heap w @ [\<lparr>resource = Some x, cleaner = cl, watchers = [],
                                     stale = False, name = n\<rparr>],
                 rc := (rc w)\<lparr>resources := (resources (rc w))(n \<mapsto> length (heap w))\<rparr>\<rparr>"
  with assms(3) show ?thesis
    by (auto simp: unsent_ok_def nth_append less_Suc_eq)
qed

lemma unsent_ok_Watcher:
  assumes "WatcherForResource n w = Inr (ch, w')" and "watchers_ok w" and "unsent_ok w"
  shows "unsent_ok w'"
proof -
  from WatcherForResource_cases [OF assms(1)] have ch: "ch = length (chans w)" by simp
  have old: "c < length (chans w)" if "a < length (heap w)" "c \<in> set (watchers (heap w ! a))" for a c
    using assms(2) that unfolding watchers_ok_def by blast
  have ns: "Sent ch \<notin> set (events w)"
    using assms(2) unfolding watchers_ok_def ch by blast
  from WatcherForResource_cases [OF assms(1)] show ?thesis
  proof (elim disjE exE conjE)
    assume w': "w' = w\<lparr>chans := chans w @ [make_chan 1],
                  heap := heap w @ [\<lparr>resource = None, cleaner = None, watchers = [ch],
                                      stale = False, name = n\<rparr>],
                  rc := (rc w)\<lparr>resources := (resources (rc w))(n \<mapsto> length (heap w))\<rparr>\<rparr>"
    have "Sent c \<notin> set (events w') \<and> chan_len (chans w' ! c) = 0"
      if a: "a < length (heap w')" "resource (heap w' ! a) = None"
        and c: "c \<in> set (watchers (heap w' ! a))" for a c
    proof (cases "a < length (heap w)")
      case True
      with a c have a': "resource (heap w ! a) = None" "c \<in> set (watchers (heap w ! a))"
        by (simp_all add: w' nth_append)
      with assms(3) True have "Sent c \<notin> set (events w)" "chan_len (chans w ! c) = 0"
        by (simp_all add: unsent_ok_def)
      with old [OF True a'(2)] show ?thesis by (simp add: w' nth_append)
    next
      case False
      with a have "a = length (heap w)" by (simp add: w')
      with c have "c = ch" by (simp add: w')
      with ns show ?thesis by (simp add: w' ch make_chan_def)
    qed
    moreover have "count_list (events w') (Sent c) \<le> 1" for c
      using assms(3) by (simp add: w' unsent_ok_def)
    ultimately show ?thesis unfolding unsent_ok_def by blast
  next
    fix r
    assume r: "r < length (heap w)"
      and w': "w' = w\<lparr>chans := chans w @ [make_chan 1],
                  heap := (heap w)[r := (heap w ! r)\<lparr>watchers := watchers (heap w ! r) @ [ch]\<rparr>]\<rparr>"
    have "Sent c \<notin> set (events w') \<and> chan_len (chans w' ! c) = 0"
      if a: "a < length (heap w')" "resource (heap w' ! a) = None"
        and c: "c \<in> set (watchers (heap w' ! a))" for a c
    proof (cases "c = ch")
      case True
      with ns show ?thesis by (simp add: w' ch make_chan_def)
    next
      case False
      from a have al: "a < length (heap w)" by (simp add: w')
      from a c False r have a': "resource (heap w ! a) = None" "c \<in> set (watchers (heap w ! a))"
        by (auto simp: w' nth_list_update split: if_splits)
      with assms(3) al have "Sent c \<notin> set (events w)" "chan_len (chans w ! c) = 0"
        by (simp_all add: unsent_ok_def)
      with old [OF al a'(2)] show ?thesis by (simp add: w' nth_append)
    qed
    moreover have "count_list (events w') (Sent c) \<le> 1" for c
      using assms(3) by (simp add: w' unsent_ok_def)
    ultimately show ?thesis unfolding unsent_ok_def by blast
  qed
qed

lemma unsent_ok_reaper_locked:
  assumes "unsent_ok w"
  shows "unsent_ok (reaper_locked ks w)"
proof -
  have "\<And>a. watchers (heap (reaper_locked ks w) ! a) = watchers (heap w ! a) \<and>
            resource (heap (reaper_locked ks w) ! a) = resource (heap w ! a)"
    using reap_range_cell [of ks "w\<lparr>resourcesToReap := []\<rparr>"] by (simp add: reaper_locked_def)
  with assms show ?thesis
    by (simp add: unsent_ok_def) (simp add: reaper_locked_def)
qed

lemma unsent_ok_step:
  assumes "step ID c w = Inr w'" and "put_has_resource c" and "watchers_ok w" and "unsent_ok w"
  shows "unsent_ok w'"
proof (cases c)
  case (CallPut n res cl)
  with assms(2) obtain x where "res = Some x" by (cases res) auto
  with CallPut assms(1) obtain err where "Put n (Some x) cl w = Inr (err, w')"
    by (cases "Put n (Some x) cl w") auto
  from unsent_ok_Put [OF this assms(3) assms(4)] show ?thesis .
next
  case (CallGet n)
  with assms(1) have "Get ID n w = (fst (Get ID n w), w')" by auto
  from Get_cases [OF this] assms(4) show ?thesis
    by (elim disjE exE conjE) (simp_all add: unsent_ok_def)
next
  case (CallWatcherForResource n)
  with assms(1) obtain ch where "WatcherForResource n w = Inr (ch, w')"
    by (cases "WatcherForResource n w") auto
  from unsent_ok_Watcher [OF this assms(3) assms(4)] show ?thesis .
next
  case CallClose
  with assms(1) have "Close w = Inr w'" by simp
  from Close_cases [OF this] assms(4) show ?thesis
    by (elim disjE exE conjE) (simp_all add: unsent_ok_def)
next
  case (Receive ch)
  with assms(1) have "receive ch w = Inr w'" by simp
  from receive_effect [OF this] assms(4) show ?thesis
    by (elim conjE) (auto simp: unsent_ok_def nth_list_update)
next
  case (ReaperTimeout ks)
  with assms(1) have "w' = reaper_locked ks w" by (auto split: if_splits)
  with unsent_ok_reaper_locked [OF assms(4), of ks] show ?thesis by simp
next
  case ReaperCleanup
  with assms(1) have "reaper_cleanup w = Inr w'" by (auto split: if_splits)
  from reaper_cleanup_effect [OF this] assms(4) show ?thesis
    by (elim disjE exE conjE) (simp add: unsent_ok_def)
next
  case ReaperShutdown
  with assms have "w' = w\<lparr>reaperExited := True\<rparr>" by (auto split: if_splits)
  with assms(4) show ?thesis by (simp add: unsent_ok_def)
qed

lemma unsent_ok_run:
  assumes "run ID cs w = Inr w'" and "\<forall>c \<in> set cs. put_has_resource c"
    and "inv w" and "unsent_ok w"
  shows "unsent_ok w'"
  using assms
proof (induction cs arbitrary: w)
  case Nil
  then show ?case by simp
next
  case (Cons c cs)
  from Cons.prems(1) obtain w1 where s: "step ID c w = Inr w1" and r: "run ID cs w1 = Inr w'"
    by (auto split: sum.splits)
  from Cons.prems(2) have p: "put_has_resource c" and ps: "\<forall>c \<in> set cs. put_has_resource c"
    by simp_all
  from Cons.prems(3) have "watchers_ok w" by (simp add: inv_def)
  from Cons.IH [OF r ps inv_step [OF s Cons.prems(3)] unsent_ok_step [OF s p this Cons.prems(4)]]
  show ?case .
qed

lemma unsent_ok_New: "unsent_ok (NewWithTimeout t)"
  by (simp add: unsent_ok_def NewWithTimeout_def)

lemma unsent_ok_reachable:
  assumes "run ID cs (NewWithTimeout t) = Inr w" and "\<forall>c \<in> set cs. put_has_resource c"
  shows "unsent_ok w"
  using unsent_ok_run [OF assms inv_New unsent_ok_New] .

subsection \<open>Put on a name that is absent or has a placeholder\<close>

text \<open>
  A \<^verbatim>\<open>Put\<close> with a nil resource notifies the watchers and leaves the entry
  without a resource. The watcher of \<open>ex_nil_put\<close> holds that notification, so the
  \<^verbatim>\<open>Put\<close> that follows finds a placeholder and blocks on its send: C5 as it is
  written fails in this state.
\<close>

theorem Put_blocks_after_nil_Put:
  "run id [CallWatcherForResource ''a'', CallPut ''a'' None None] (NewWithTimeout 0) =
     Inr ex_nil_put \<and>
   resources (rc ex_nil_put) ''a'' = Some 0 \<and>
   \<not> wasPut (deref (heap ex_nil_put) 0) \<and>
   Put ''a'' (Some ''id-a'') (Some ''c'') ex_nil_put = Inl Blocked"
  by (simp add: ex_nil_put_def evals)

text \<open>
  C5, amended. Take a state reached by a schedule in which every \<^verbatim>\<open>Put\<close> was given
  a resource that is not nil, and a name that is absent or maps to an entry without a
  resource. Then \<^verbatim>\<open>Put\<close> returns nil. Afterwards the name maps to an entry that
  holds the given resource and cleaner, the name, and the watchers the entry had at the
  call (none if the name was absent), and is not stale. The events grow by exactly one
  send for each of those watchers, which are pairwise different channels. No send
  blocked: each of these channels had capacity one, was open and empty, and had never
  been sent to; after the call it holds one notification.
\<close>

theorem Put_populates_and_notifies:
  assumes "run ID cs (NewWithTimeout t) = Inr w" and "\<forall>c \<in> set cs. put_has_resource c"
    and "resources (rc w) n = None \<or>
         (\<exists>r. resources (rc w) n = Some r \<and> \<not> wasPut (deref (heap w) r))"
  shows "\<exists>w' r ws.
           Put n res cl w = Inr (None, w') \<and>
           resources (rc w') = (resources (rc w))(n \<mapsto> r) \<and> r < length (heap w') \<and>
           heap w' ! r = \<lparr>resource = res, cleaner = cl, watchers = ws, stale = False, name = n\<rparr> \<and>
           ws = (case resources (rc w) n of None \<Rightarrow> [] | Some r0 \<Rightarrow> watchers (heap w ! r0)) \<and>
           distinct ws \<and> events w' = events w @ map Sent ws \<and>
           (\<forall>ch \<in> set ws.
              ch < length (chans w) \<and> chan_cap (chans w ! ch) = 1 \<and>
              chan_len (chans w ! ch) = 0 \<and> \<not> chan_closed (chans w ! ch) \<and>
              Sent ch \<notin> set (events w) \<and> chan_len (chans w' ! ch) = 1)"
proof (cases "resources (rc w) n")
  case None
  let ?w' = "w\<lparr>heap := heap w @ [\<lparr>resource = res, cleaner = cl, watchers = [],
                                     stale = False, name = n\<rparr>],
                rc := (rc w)\<lparr>resources := (resources (rc w))(n \<mapsto> length (heap w))\<rparr>\<rparr>"
  from None have "Put n res cl w = Inr (None, ?w')"
    by (auto simp: Put_def lookup_or_create_def deref_def wasPut_def)
  with None show ?thesis
    by (intro exI [of _ ?w'] exI [of _ "length (heap w)"] exI [of _ "[]"]) simp
next
  case (Some r)
  note i = inv_reachable [OF assms(1)]
  note u = unsent_ok_reachable [OF assms(1) assms(2)]
  from i have reg: "registry_ok w" and wo: "watchers_ok w" and fl: "flags_ok w"
    by (simp_all add: inv_def)
  from reg Some have r: "r < length (heap w)" by (simp add: registry_ok_def)
  with assms(3) Some have nores: "resource (heap w ! r) = None"
    by (simp add: wasPut_def deref_def)
  with fl r have ns: "\<not> stale (heap w ! r)" by (auto simp: flags_ok_def)
  let ?ws = "watchers (heap w ! r)"
  let ?w0 = "w\<lparr>heap := (heap w)[r := (heap w ! r)\<lparr>resource := res, cleaner := cl, name := n\<rparr>]\<rparr>"
  from wo r have dw: "distinct ?ws"
    and rng: "\<And>ch. ch \<in> set ?ws \<Longrightarrow> ch < length (chans w)"
    by (simp_all add: watchers_ok_def)
  from wo have caps: "\<And>ch. ch < length (chans w) \<Longrightarrow>
      chan_cap (chans w ! ch) = 1 \<and> \<not> chan_closed (chans w ! ch)"
    by (simp add: watchers_ok_def)
  from u r nores have un: "\<And>ch. ch \<in> set ?ws \<Longrightarrow>
      Sent ch \<notin> set (events w) \<and> chan_len (chans w ! ch) = 0"
    by (simp add: unsent_ok_def)
  have "\<forall>ch \<in> set ?ws. ch < length (chans ?w0) \<and> \<not> chan_closed (chans ?w0 ! ch) \<and>
           chan_len (chans ?w0 ! ch) < chan_cap (chans ?w0 ! ch)"
    using rng caps un by simp
  from notify_succeeds [OF dw this] obtain w' where n: "notify ?ws ?w0 = Inr w'" by blast
  note e = notify_effect [OF n]
  note f = notify_fills [OF n dw]
  from Some r nores n have put: "Put n res cl w = Inr (None, w')"
    by (simp add: Put_def lookup_or_create_def deref_def wasPut_def)
  have cell: "heap w' ! r = \<lparr>resource = res, cleaner = cl, watchers = ?ws, stale = False, name = n\<rparr>"
    using e r ns by simp
  have reg': "resources (rc w') = (resources (rc w))(n \<mapsto> r)"
    using e Some by (auto simp: fun_eq_iff)
  have "\<forall>ch \<in> set ?ws.
              ch < length (chans w) \<and> chan_cap (chans w ! ch) = 1 \<and>
              chan_len (chans w ! ch) = 0 \<and> \<not> chan_closed (chans w ! ch) \<and>
              Sent ch \<notin> set (events w) \<and> chan_len (chans w' ! ch) = 1"
    using rng caps un f by simp
  with put reg' cell dw e r Some show ?thesis
    by (intro exI [of _ w'] exI [of _ r] exI [of _ ?ws]) simp
qed

theorem Put_populates_and_notifies_witness:
  "Put ''b'' (Some ''id-b'') (Some ''c'') ex_watch =
     Inr (None,
          \<lparr>rc = \<lparr>resources = [''b'' \<mapsto> 0], timeout = 0, closeChan = make_chan 1, closed = False\<rparr>,
           heap = [\<lparr>resource = Some ''id-b'', cleaner = Some ''c'', watchers = [0], stale = False,
                     name = ''b''\<rparr>],
           chans = [\<lparr>chan_cap = 1, chan_len = 1, chan_closed = False\<rparr>],
           resourcesToReap = [], reaperExited = False, events = [Sent 0]\<rparr>)"
  using Put_populates_and_notifies [OF ex_watch_run, of "''b''" "Some ''id-b''" "Some ''c''"]
  by (simp add: ex_watch_def evals)

subsection \<open>At most one notification for a watcher\<close>

text \<open>
  The same schedule, with the waiter taking its notification before the second
  \<^verbatim>\<open>Put\<close>: channel 0 is sent to twice, so C6 as it is written fails.
\<close>

theorem watcher_notified_twice_after_nil_Put:
  "run id [CallWatcherForResource ''a'', CallPut ''a'' None None, Receive 0,
           CallPut ''a'' (Some ''id-a'') (Some ''c'')] (NewWithTimeout 0) =
     Inr \<lparr>rc = \<lparr>resources = [''a'' \<mapsto> 0], timeout = 0, closeChan = make_chan 1, closed = False\<rparr>,
          heap = [\<lparr>resource = Some ''id-a'', cleaner = Some ''c'', watchers = [0], stale = False,
                    name = ''a''\<rparr>],
          chans = [\<lparr>chan_cap = 1, chan_len = 1, chan_closed = False\<rparr>],
          resourcesToReap = [], reaperExited = False,
          events = [Sent 0, Sent 0 :: (string, string) event]\<rparr>"
  by (simp add: evals)

text \<open>
  C6, amended. After every schedule of \<^verbatim>\<open>Put\<close>, \<^verbatim>\<open>Get\<close>,
  \<^verbatim>\<open>WatcherForResource\<close>, \<^verbatim>\<open>Close\<close>, receives by the waiters and steps of the
  reaper in which every \<^verbatim>\<open>Put\<close> was given a resource that is not nil, each channel
  has been sent to at most once.
\<close>

theorem watcher_notified_at_most_once:
  assumes "run ID cs (NewWithTimeout t) = Inr w" and "\<forall>c \<in> set cs. put_has_resource c"
  shows "count_list (events w) (Sent ch) \<le> 1"
  using unsent_ok_reachable [OF assms] by (simp add: unsent_ok_def)

theorem watcher_notified_at_most_once_witness:
  "run id [CallWatcherForResource ''a'', CallWatcherForResource ''a'',
           CallPut ''a'' (Some ''id-a'') (Some ''c''), Receive 0, CallWatcherForResource ''a'',
           CallPut ''a'' (Some ''id-2'') (Some ''c2''), CallGet ''a'',
           CallPut ''a'' (Some ''id-3'') (Some ''c3'')] (NewWithTimeout 0) =
     Inr \<lparr>rc = \<lparr>resources = [''a'' \<mapsto> 1], timeout = 0, closeChan = make_chan 1, closed = False\<rparr>,
          heap = [\<lparr>resource = Some ''id-a'', cleaner = Some ''c'', watchers = [0, 1, 2],
                    stale = False, name = ''a''\<rparr>,
                  \<lparr>resource = Some ''id-3'', cleaner = Some ''c3'', watchers = [], stale = False,
                    name = ''a''\<rparr>],
          chans = [\<lparr>chan_cap = 1, chan_len = 0, chan_closed = False\<rparr>,
                   \<lparr>chan_cap = 1, chan_len = 1, chan_closed = False\<rparr>,
                   \<lparr>chan_cap = 1, chan_len = 0, chan_closed = False\<rparr>],
          resourcesToReap = [], reaperExited = False,
          events = [Sent 0, Sent 1, SetCreated ''id-a'']\<rparr> \<and>
   count_list [Sent 0, Sent 1, SetCreated ''id-a'' :: (string, string) event] (Sent 0) \<le> 1"
proof -
  have r: "run id [CallWatcherForResource ''a'', CallWatcherForResource ''a'',
           CallPut ''a'' (Some ''id-a'') (Some ''c''), Receive 0, CallWatcherForResource ''a'',
           CallPut ''a'' (Some ''id-2'') (Some ''c2''), CallGet ''a'',
           CallPut ''a'' (Some ''id-3'') (Some ''c3'')] (NewWithTimeout 0) =
     Inr \<lparr>rc = \<lparr>resources = [''a'' \<mapsto> 1], timeout = 0, closeChan = make_chan 1, closed = False\<rparr>,
          heap = [\<lparr>resource = Some ''id-a'', cleaner = Some ''c'', watchers = [0, 1, 2],
                    stale = False, name = ''a''\<rparr>,
                  \<lparr>resource = Some ''id-3'', cleaner = Some ''c3'', watchers = [], stale = False,
                    name = ''a''\<rparr>],
          chans = [\<lparr>chan_cap = 1, chan_len = 0, chan_closed = False\<rparr>,
                   \<lparr>chan_cap = 1, chan_len = 1, chan_closed = False\<rparr>,
                   \<lparr>chan_cap = 1, chan_len = 0, chan_closed = False\<rparr>],
          resourcesToReap = [], reaperExited = False,
          events = [Sent 0, Sent 1, SetCreated ''id-a'' :: (string, string) event]\<rparr>"
    by (simp add: evals)
  from watcher_notified_at_most_once [OF r, of 0] r show ?thesis by simp
qed

end
